theory Spec2Isabelle
  imports Main
begin

section \<open>Text primitives of the script\<close>

text \<open>
  The script under verification is \<^verbatim>\<open>weiban_spider.py\<close>; everything modelled here is the
  body of its \<^verbatim>\<open>main\<close> coroutine, step 3 (lines 345-867). Python text is modelled as
  \<^typ>\<open>string\<close>, one \<^typ>\<open>char\<close> per code point, for the code points U+0000 to U+00FF.
\<close>

text \<open>Python exceptions that occur in the modelled code; all are subclasses of \<^verbatim>\<open>Exception\<close>.\<close>

datatype exn = ValueError | AttributeError | PlaywrightError | TimeoutError

text \<open>\<^verbatim>\<open>str.startswith\<close> and the substring test \<^verbatim>\<open>p in s\<close>.\<close>

fun starts_with :: "string \<Rightarrow> string \<Rightarrow> bool" where
  "starts_with [] s = True"
| "starts_with (p # ps) [] = False"
| "starts_with (p # ps) (c # cs) = (p = c \<and> starts_with ps cs)"

fun str_in :: "string \<Rightarrow> string \<Rightarrow> bool" where
  "str_in p [] = (p = [])"
| "str_in p (c # cs) = (starts_with p (c # cs) \<or> str_in p cs)"

text \<open>
  The characters \<^verbatim>\<open>str.strip()\<close> removes (those with \<^verbatim>\<open>str.isspace()\<close>), and the smaller
  set \<^verbatim>\<open>int()\<close> tolerates around a number: the separators U+001C to U+001F are stripped
  by the former and rejected by the latter.
\<close>

definition py_isspace :: "char \<Rightarrow> bool" where
  "py_isspace c =
     (let n = (of_char c :: nat)
      in (9 \<le> n \<and> n \<le> 13) \<or> (28 \<le> n \<and> n \<le> 32) \<or> n = 133 \<or> n = 160)"

definition int_isspace :: "char \<Rightarrow> bool" where
  "int_isspace c =
     (let n = (of_char c :: nat)
      in (9 \<le> n \<and> n \<le> 13) \<or> n = 32 \<or> n = 133 \<or> n = 160)"

definition strip :: "string \<Rightarrow> string" where
  "strip s = rev (dropWhile py_isspace (rev (dropWhile py_isspace s)))"

text \<open>\<^verbatim>\<open>s.split(c)\<close> for a one-character separator: one more part than separators.\<close>

fun split_on :: "char \<Rightarrow> string \<Rightarrow> string list" where
  "split_on c [] = [[]]"
| "split_on c (x # xs) =
     (if x = c then [] # split_on c xs
      else (case split_on c xs of
              [] \<Rightarrow> [[x]]
            | p # ps \<Rightarrow> (x # p) # ps))"

text \<open>\<^verbatim>\<open>str.lower()\<close> on the modelled code points.\<close>

definition lower_char :: "char \<Rightarrow> char" where
  "lower_char c =
     (let n = (of_char c :: nat)
      in if (65 \<le> n \<and> n \<le> 90) \<or> (192 \<le> n \<and> n \<le> 222 \<and> n \<noteq> 215)
         then char_of (n + 32) else c)"

definition lower :: "string \<Rightarrow> string" where
  "lower s = map lower_char s"

subsection \<open>\<^verbatim>\<open>int(text)\<close> and \<^verbatim>\<open>str(number)\<close>\<close>

definition digit_of :: "char \<Rightarrow> nat option" where
  "digit_of c =
     (let n = (of_char c :: nat)
      in if 48 \<le> n \<and> n \<le> 57 then Some (n - 48) else None)"

text \<open>
  The digits after the first one: a single underscore is allowed between two digits,
  nowhere else.
\<close>

fun digits_from :: "nat \<Rightarrow> string \<Rightarrow> nat option" where
  "digits_from acc [] = Some acc"
| "digits_from acc (c # cs) =
     (if c = CHR ''_'' then
        (case cs of
           [] \<Rightarrow> None
         | d # ds \<Rightarrow>
             (case digit_of d of
                None \<Rightarrow> None
              | Some v \<Rightarrow> digits_from (10 * acc + v) ds))
      else
        (case digit_of c of
           None \<Rightarrow> None
         | Some v \<Rightarrow> digits_from (10 * acc + v) cs))"

text \<open>
  \<^verbatim>\<open>int\<close> refuses a literal of more than 4300 digits with \<^verbatim>\<open>ValueError\<close>: the default
  \<^verbatim>\<open>sys.int_info.default_max_str_digits\<close> of CPython from version 3.11 on, which the script
  does not change. Leading zeros count; the sign, underscores and the whitespace around
  the number do not.
\<close>

definition max_str_digits :: nat where
  "max_str_digits = 4300"

definition digit_count :: "string \<Rightarrow> nat" where
  "digit_count s = length (filter (\<lambda>c. digit_of c \<noteq> None) s)"

definition py_digits :: "string \<Rightarrow> nat option" where
  "py_digits s =
     (if digit_count s > max_str_digits then None
      else
        (case s of
           [] \<Rightarrow> None
         | c # cs \<Rightarrow>
             (case digit_of c of
                None \<Rightarrow> None
              | Some v \<Rightarrow> digits_from v cs)))"

definition py_int :: "string \<Rightarrow> exn + int" where
  "py_int s =
     (case rev (dropWhile int_isspace (rev (dropWhile int_isspace s))) of
        [] \<Rightarrow> Inl ValueError
      | c # cs \<Rightarrow>
          if c = CHR ''-'' then
            (case py_digits cs of None \<Rightarrow> Inl ValueError | Some n \<Rightarrow> Inr (- int n))
          else if c = CHR ''+'' then
            (case py_digits cs of None \<Rightarrow> Inl ValueError | Some n \<Rightarrow> Inr (int n))
          else
            (case py_digits (c # cs) of None \<Rightarrow> Inl ValueError | Some n \<Rightarrow> Inr (int n)))"

fun nat_digits :: "nat \<Rightarrow> string" where
  "nat_digits n =
     (if n < 10 then [char_of (48 + n)]
      else nat_digits (n div 10) @ [char_of (48 + n mod 10)])"

definition py_str :: "int \<Rightarrow> string" where
  "py_str i = (if i < 0 then CHR ''-'' # nat_digits (nat (- i)) else nat_digits (nat i))"

section \<open>Completion classifier\<close>

text \<open>
  Lines 381-388: the progress text of a module, \<^verbatim>\<open>"finished/total"\<close>.
  \<^verbatim>\<open>
  count_text = count_text.strip()
  if '/' in count_text:
      finished, total = count_text.split('/')
      finished = int(finished)
      total = int(total)
  else:
      finished, total = 0, 0
  \<close>
  Unpacking anything but two parts raises \<^verbatim>\<open>ValueError\<close>, as \<^verbatim>\<open>int\<close> does on a part that
  is not a number.
\<close>

definition parse_count_text :: "string \<Rightarrow> exn + (int \<times> int)" where
  "parse_count_text count_text0 =
     (let count_text = strip count_text0 in
      if CHR ''/'' \<in> set count_text then
        (case split_on CHR ''/'' count_text of
           [finished_text, total_text] \<Rightarrow>
             (case py_int finished_text of
                Inl e \<Rightarrow> Inl e
              | Inr f \<Rightarrow>
                  (case py_int total_text of
                     Inl e \<Rightarrow> Inl e
                   | Inr t \<Rightarrow> Inr (f, t)))
         | _ \<Rightarrow> Inl ValueError)
      else Inr (0, 0))"

text \<open>
  Line 395, \<^verbatim>\<open>if finished >= total and total > 0\<close>: the module counts as finished and is
  skipped.
\<close>

definition module_finished :: "int \<Rightarrow> int \<Rightarrow> bool" where
  "module_finished finished total_count = (finished \<ge> total_count \<and> total_count > 0)"

text \<open>
  Line 457, \<^verbatim>\<open>is_passed = 'passed' in item_class if item_class else False\<close>, on the value
  of the element's \<^verbatim>\<open>class\<close> attribute (\<^verbatim>\<open>None\<close> when the attribute is absent).
\<close>

definition is_passed :: "string option \<Rightarrow> bool" where
  "is_passed item_class =
     (case item_class of
        None \<Rightarrow> False
      | Some c \<Rightarrow> if c \<noteq> [] then str_in ''passed'' c else False)"

text \<open>
  Lines 430 and 802,
  \<^verbatim>\<open>is_expanded = 'van-collapse-item--expanded' in (module_class or '')\<close>.
\<close>

definition is_expanded :: "string option \<Rightarrow> bool" where
  "is_expanded module_class =
     str_in ''van-collapse-item--expanded''
       (case module_class of None \<Rightarrow> [] | Some c \<Rightarrow> c)"

text \<open>
  The tokens of a \<^verbatim>\<open>class\<close> attribute as HTML defines them: the maximal runs of
  characters other than space, tab, line feed, form feed and carriage return. The script
  has no such function; it states what "one of the tokens of the class attribute" means.
\<close>

definition html_space :: "char \<Rightarrow> bool" where
  "html_space c = ((of_char c :: nat) \<in> {9, 10, 12, 13, 32})"

fun class_tokens_from :: "string \<Rightarrow> string \<Rightarrow> string list" where
  "class_tokens_from cur [] = (if cur = [] then [] else [cur])"
| "class_tokens_from cur (c # cs) =
     (if html_space c
      then (if cur = [] then class_tokens_from [] cs else cur # class_tokens_from [] cs)
      else class_tokens_from (cur @ [c]) cs)"

definition class_tokens :: "string \<Rightarrow> string list" where
  "class_tokens s = class_tokens_from [] s"

definition has_passed_token :: "string option \<Rightarrow> bool" where
  "has_passed_token item_class =
     (case item_class of None \<Rightarrow> False | Some c \<Rightarrow> ''passed'' \<in> set (class_tokens c))"

section \<open>Frame resolver\<close>

text \<open>
  A frame of \<^verbatim>\<open>page.frames\<close> as the script reads it: its \<^verbatim>\<open>url\<close> and \<^verbatim>\<open>name\<close>, and an
  identity that later calls on the frame refer to.
\<close>

record frame =
  frame_id :: nat
  frame_url :: string
  frame_name :: string

text \<open>
  Lines 547 and 561,
  \<^verbatim>\<open>if not frame_url or frame_url == 'about:blank' or 'javascript:' in frame_url: continue\<close>.
\<close>

definition placeholder :: "string \<Rightarrow> bool" where
  "placeholder u = (u = [] \<or> u = ''about:blank'' \<or> str_in ''javascript:'' u)"

text \<open>Lines 544-555: the first frame of the content domain.\<close>

fun scan_mcwk :: "frame list \<Rightarrow> frame option" where
  "scan_mcwk [] = None"
| "scan_mcwk (f # fs) =
     (if placeholder (frame_url f) then scan_mcwk fs
      else if str_in ''mcwk.mycourse.cn'' (frame_url f) then Some f
      else scan_mcwk fs)"

text \<open>Lines 559-572: the first frame off the outer page's domain with a course path.\<close>

fun scan_course :: "frame list \<Rightarrow> frame option" where
  "scan_course [] = None"
| "scan_course (f # fs) =
     (if placeholder (frame_url f) then scan_course fs
      else if str_in ''weiban.mycourse.cn'' (frame_url f) then scan_course fs
      else if str_in ''/course/'' (lower (frame_url f)) then Some f
      else scan_course fs)"

text \<open>Lines 576-582: the first frame that is neither the page itself nor a placeholder.\<close>

fun scan_first_valid :: "string \<Rightarrow> frame list \<Rightarrow> frame option" where
  "scan_first_valid page_url [] = None"
| "scan_first_valid page_url (f # fs) =
     (if frame_url f \<noteq> [] \<and> frame_url f \<noteq> page_url
         \<and> \<not> str_in ''javascript:'' (frame_url f) \<and> frame_url f \<noteq> ''about:blank''
      then Some f
      else scan_first_valid page_url fs)"

text \<open>
  Lines 542-582 together: each later scan runs only \<^verbatim>\<open>if not iframe\<close>. \<^const>\<open>None\<close> is the
  script's \<^verbatim>\<open>iframe = None\<close>, after which line 592 falls back to the main frame.
\<close>

definition find_iframe :: "string \<Rightarrow> frame list \<Rightarrow> frame option" where
  "find_iframe page_url frames =
     (case scan_mcwk frames of
        Some f \<Rightarrow> Some f
      | None \<Rightarrow>
          (case scan_course frames of
             Some f \<Rightarrow> Some f
           | None \<Rightarrow> scan_first_valid page_url frames))"

section \<open>The browser as the script sees it\<close>

text \<open>
  The script drives a browser through Playwright. Nothing of the browser is in the
  repository, so the model takes it as a parameter: a world of any type \<open>'w\<close> and, for
  every awaited call, a function from the world to the call's result (or the exception it
  raises) and the next world. Every theorem below holds for every such browser.

  Element handles are opaque identifiers. Selectors and scripts are the literals of the
  script, named here by constructors:
  \<^item> \<open>Sel_collapse_item\<close> is \<^verbatim>\<open>.van-collapse-item\<close>, \<open>Sel_text\<close> is \<^verbatim>\<open>.text\<close>,
    \<open>Sel_count\<close> is \<^verbatim>\<open>.count\<close>, \<open>Sel_collapse_title\<close> is \<^verbatim>\<open>.van-collapse-item__title\<close>,
    \<open>Sel_img_texts_item\<close> is \<^verbatim>\<open>.img-texts-item\<close>, \<open>Sel_title\<close> is \<^verbatim>\<open>.title\<close>;
  \<^item> \<open>Sel_wifi_tip\<close> is \<^verbatim>\<open>p.txt-des:has-text("...")\<close> with the "watch on wifi" text of
    line 620;
  \<^item> \<open>Sel_btn_start_any\<close> is \<^verbatim>\<open>.btn-start, a.btn-start\<close>, \<open>Sel_btn_start\<close> is \<^verbatim>\<open>.btn-start\<close>,
    \<open>Sel_img_btn_start\<close> is \<^verbatim>\<open>img[src*="btn-start"]\<close>, \<open>Sel_a_img_btn_start\<close> is
    \<^verbatim>\<open>a:has(img[src*="btn-start"])\<close>, \<open>Sel_pri_start_btn\<close> is \<^verbatim>\<open>.pri-start-btn\<close>,
    \<open>Sel_class_start\<close> is \<^verbatim>\<open>a[class*="start"], button[class*="start"]\<close>;
  \<^item> \<open>Sel_back_to_list\<close> is \<^verbatim>\<open>button.comment-footer-button:has-text("...")\<close> with the
    "back to list" text of line 761, \<open>Sel_comment_footer_button\<close> is
    \<^verbatim>\<open>.comment-footer-button\<close>, \<open>Sel_back_generic\<close> is
    \<^verbatim>\<open>.van-nav-bar__left, .back-btn, [class*="back"]\<close>;
  \<^item> \<open>Js_element_click\<close> is \<^verbatim>\<open>element => element.click()\<close>, \<open>Js_typeof_finish\<close> is
    \<^verbatim>\<open>() => typeof finishWxCourse === 'function'\<close>, \<open>Js_finish\<close> is \<^verbatim>\<open>finishWxCourse()\<close>,
    \<open>Js_frame_info\<close> is the debugging script of lines 739-747.
\<close>

type_synonym elem = nat

datatype selector =
    Sel_collapse_item | Sel_text | Sel_count | Sel_collapse_title | Sel_img_texts_item
  | Sel_title | Sel_wifi_tip
  | Sel_btn_start_any | Sel_btn_start | Sel_img_btn_start | Sel_a_img_btn_start
  | Sel_pri_start_btn | Sel_class_start
  | Sel_back_to_list | Sel_comment_footer_button | Sel_back_generic

datatype script = Js_element_click | Js_typeof_finish | Js_finish | Js_frame_info

datatype load_state = Domcontentloaded | Networkidle

text \<open>
  The awaited calls, with their arguments: a click carries its \<^verbatim>\<open>timeout\<close> and \<^verbatim>\<open>force\<close>
  arguments, \<^verbatim>\<open>wait_for_selector\<close> its \<^verbatim>\<open>timeout\<close> and \<^verbatim>\<open>state\<close>. \<open>Sleep\<close> is
  \<^verbatim>\<open>asyncio.sleep\<close>.
\<close>

datatype call =
    Page_wait_for_selector selector nat
  | Page_query_selector_all selector
  | Page_query_selector selector
  | Page_wait_for_load_state load_state nat
  | Page_go_back
  | Elem_query_selector elem selector
  | Elem_query_selector_all elem selector
  | Elem_text_content elem
  | Elem_get_attribute elem string
  | Elem_click elem "nat option" bool
  | Elem_is_visible elem
  | Elem_scroll_into_view_if_needed elem
  | Elem_evaluate elem script
  | Frame_query_selector frame selector
  | Frame_query_selector_all frame selector
  | Frame_wait_for_selector frame selector nat "string option"
  | Frame_is_visible frame selector
  | Frame_click frame selector "nat option"
  | Frame_evaluate frame script
  | Sleep nat

text \<open>What a script evaluated in the page returns, and Python's truth value of it.\<close>

datatype jsval = JNull | JBool bool | JInt int | JStr string | JArray nat | JObject nat

fun py_truthy :: "jsval \<Rightarrow> bool" where
  "py_truthy JNull = False"
| "py_truthy (JBool b) = b"
| "py_truthy (JInt i) = (i \<noteq> 0)"
| "py_truthy (JStr t) = (t \<noteq> [])"
| "py_truthy (JArray n) = (n \<noteq> 0)"
| "py_truthy (JObject n) = (n \<noteq> 0)"

datatype response =
    Raised exn
  | R_none
  | R_elem "elem option"
  | R_elems "elem list"
  | R_text "string option"
  | R_bool bool
  | R_js jsval

type_synonym event = "call \<times> response"

record 'w browser =
  do_unit :: "call \<Rightarrow> 'w \<Rightarrow> (exn + unit) \<times> 'w"
  do_elem :: "call \<Rightarrow> 'w \<Rightarrow> (exn + elem option) \<times> 'w"
  do_elems :: "call \<Rightarrow> 'w \<Rightarrow> (exn + elem list) \<times> 'w"
  do_text :: "call \<Rightarrow> 'w \<Rightarrow> (exn + string option) \<times> 'w"
  do_bool :: "call \<Rightarrow> 'w \<Rightarrow> (exn + bool) \<times> 'w"
  do_js :: "call \<Rightarrow> 'w \<Rightarrow> (exn + jsval) \<times> 'w"
  do_sleep :: "nat \<Rightarrow> 'w \<Rightarrow> 'w"
  get_frames :: "'w \<Rightarrow> frame list"
  get_url :: "'w \<Rightarrow> string"
  get_main_frame :: "'w \<Rightarrow> frame"

text \<open>
  The state the script runs in: the browser's world, the calls made so far with what
  they returned, and the two variables of \<^verbatim>\<open>main\<close> that are assigned inside \<^verbatim>\<open>try\<close> blocks
  and read after them, \<^verbatim>\<open>title_button\<close> and \<^verbatim>\<open>completed_count\<close>.
\<close>

record 'w st =
  world :: 'w
  trace :: "event list"
  title_button :: "elem option"
  completed_count :: nat

type_synonym ('w, 'a) io = "'w st \<Rightarrow> (exn + 'a) \<times> 'w st"

definition ret :: "'a \<Rightarrow> ('w, 'a) io" where
  "ret x s = (Inr x, s)"

definition raise :: "exn \<Rightarrow> ('w, 'a) io" where
  "raise e s = (Inl e, s)"

definition bnd :: "('w, 'a) io \<Rightarrow> ('a \<Rightarrow> ('w, 'b) io) \<Rightarrow> ('w, 'b) io" where
  "bnd m f s = (case m s of (Inl e, s') \<Rightarrow> (Inl e, s') | (Inr x, s') \<Rightarrow> f x s')"

text \<open>\<^verbatim>\<open>try: m except Exception as e: h\<close>; a bare \<^verbatim>\<open>except:\<close> is the same here.\<close>

definition try_except :: "('w, 'a) io \<Rightarrow> (exn \<Rightarrow> ('w, 'a) io) \<Rightarrow> ('w, 'a) io" where
  "try_except m h s = (case m s of (Inl e, s') \<Rightarrow> h e s' | (Inr x, s') \<Rightarrow> (Inr x, s'))"

definition perform ::
  "(call \<Rightarrow> 'w \<Rightarrow> (exn + 'a) \<times> 'w) \<Rightarrow> ('a \<Rightarrow> response) \<Rightarrow> call \<Rightarrow> ('w, 'a) io" where
  "perform f wrap c s =
     (case f c (world s) of
        (r, w) \<Rightarrow>
          (r, s\<lparr>world := w,
                trace := trace s @ [(c, case r of Inl e \<Rightarrow> Raised e | Inr x \<Rightarrow> wrap x)]\<rparr>))"

definition call_unit :: "'w browser \<Rightarrow> call \<Rightarrow> ('w, unit) io" where
  "call_unit B c = perform (do_unit B) (\<lambda>_. R_none) c"

definition call_elem :: "'w browser \<Rightarrow> call \<Rightarrow> ('w, elem option) io" where
  "call_elem B c = perform (do_elem B) R_elem c"

definition call_elems :: "'w browser \<Rightarrow> call \<Rightarrow> ('w, elem list) io" where
  "call_elems B c = perform (do_elems B) R_elems c"

definition call_text :: "'w browser \<Rightarrow> call \<Rightarrow> ('w, string option) io" where
  "call_text B c = perform (do_text B) R_text c"

definition call_bool :: "'w browser \<Rightarrow> call \<Rightarrow> ('w, bool) io" where
  "call_bool B c = perform (do_bool B) R_bool c"

definition call_js :: "'w browser \<Rightarrow> call \<Rightarrow> ('w, jsval) io" where
  "call_js B c = perform (do_js B) R_js c"

definition sleep :: "'w browser \<Rightarrow> nat \<Rightarrow> ('w, unit) io" where
  "sleep B n s =
     (Inr (), s\<lparr>world := do_sleep B n (world s), trace := trace s @ [(Sleep n, R_none)]\<rparr>)"

text \<open>A \<^verbatim>\<open>for\<close> loop whose body is one \<^verbatim>\<open>await asyncio.sleep(n)\<close>, run \<open>k\<close> times.\<close>

fun sleep_times :: "'w browser \<Rightarrow> nat \<Rightarrow> nat \<Rightarrow> ('w, unit) io" where
  "sleep_times B 0 n = ret ()"
| "sleep_times B (Suc k) n = bnd (sleep B n) (\<lambda>_. sleep_times B k n)"

definition set_title_button :: "elem option \<Rightarrow> ('w, unit) io" where
  "set_title_button b s = (Inr (), s\<lparr>title_button := b\<rparr>)"

definition increment_completed_count :: "('w, unit) io" where
  "increment_completed_count s = (Inr (), s\<lparr>completed_count := completed_count s + 1\<rparr>)"

section \<open>The traversal, block by block\<close>

text \<open>
  The script prints after almost every step; prints are left out. Every other statement
  of lines 350-867 is here, in the script's order; the line numbers say where.
\<close>

subsection \<open>Head of a module iteration (lines 364-416)\<close>

text \<open>
  Lines 364-371: the module list is queried again; past its end the \<^verbatim>\<open>while\<close> loop is
  left by \<^verbatim>\<open>break\<close> (\<^const>\<open>None\<close>).
\<close>

definition fetch_module :: "'w browser \<Rightarrow> nat \<Rightarrow> ('w, elem option) io" where
  "fetch_module B module_index =
     bnd (call_elems B (Page_query_selector_all Sel_collapse_item)) (\<lambda>modules.
       if module_index \<ge> length modules then ret None
       else ret (Some (modules ! module_index)))"

text \<open>
  Lines 373-379: the title (only printed) and the progress text, \<^verbatim>\<open>"0/0"\<close> when the
  module has no \<^verbatim>\<open>.count\<close> element. \<^verbatim>\<open>text_content()\<close> may return \<^verbatim>\<open>None\<close>.
\<close>

definition read_count_text :: "'w browser \<Rightarrow> elem \<Rightarrow> ('w, string option) io" where
  "read_count_text B module =
     bnd (call_elem B (Elem_query_selector module Sel_text)) (\<lambda>title_elem.
     bnd (case title_elem of
            Some t \<Rightarrow> bnd (call_text B (Elem_text_content t)) (\<lambda>_. ret ())
          | None \<Rightarrow> ret ()) (\<lambda>_.
     bnd (call_elem B (Elem_query_selector module Sel_count)) (\<lambda>count_elem.
       case count_elem of
         Some c \<Rightarrow> call_text B (Elem_text_content c)
       | None \<Rightarrow> ret (Some ''0/0''))))"

text \<open>
  Lines 381-388 on what was read: \<^verbatim>\<open>None.strip()\<close> raises \<^verbatim>\<open>AttributeError\<close>.
\<close>

definition parse_progress :: "string option \<Rightarrow> ('w, int \<times> int) io" where
  "parse_progress count_text =
     (case count_text of
        None \<Rightarrow> raise AttributeError
      | Some t \<Rightarrow>
          (case parse_count_text t of
             Inl e \<Rightarrow> raise e
           | Inr p \<Rightarrow> ret p))"

datatype module_step = Modules_exhausted | Module_skipped | No_course_items | Enter_lessons

text \<open>
  Lines 402-416: the module is expanded by a click on its title and its lessons are
  listed. With no lesson the script prints "skip" and runs \<^verbatim>\<open>continue\<close>
  (\<^const>\<open>No_course_items\<close>).
\<close>

definition expand_module :: "'w browser \<Rightarrow> elem \<Rightarrow> ('w, module_step) io" where
  "expand_module B module =
     bnd (call_elem B (Elem_query_selector module Sel_collapse_title)) (\<lambda>button.
     bnd (set_title_button button) (\<lambda>_.
     bnd (case button of
            Some b \<Rightarrow> bnd (call_unit B (Elem_click b None False)) (\<lambda>_. sleep B 2)
          | None \<Rightarrow> ret ()) (\<lambda>_.
     bnd (call_elems B (Elem_query_selector_all module Sel_img_texts_item)) (\<lambda>course_items.
       if course_items = [] then ret No_course_items else ret Enter_lessons))))"

text \<open>
  Lines 394-416: a finished module is skipped (\<^verbatim>\<open>module_index += 1; continue\<close>), any
  other is expanded.
\<close>

definition module_gate :: "'w browser \<Rightarrow> elem \<Rightarrow> int \<Rightarrow> int \<Rightarrow> ('w, module_step) io" where
  "module_gate B module finished total_count =
     (if module_finished finished total_count then ret Module_skipped
      else expand_module B module)"

definition module_head :: "'w browser \<Rightarrow> nat \<Rightarrow> ('w, module_step) io" where
  "module_head B module_index =
     bnd (fetch_module B module_index) (\<lambda>found.
       case found of
         None \<Rightarrow> ret Modules_exhausted
       | Some module \<Rightarrow>
           bnd (read_count_text B module) (\<lambda>count_text.
           bnd (parse_progress count_text) (\<lambda>(finished, total_count).
             module_gate B module finished total_count)))"

subsection \<open>One pass of the lesson loop (lines 419-839)\<close>

text \<open>
  Lines 421-444: the module is fetched again and expanded if its class does not say it
  is; \<^const>\<open>None\<close> is a \<^verbatim>\<open>break\<close> (lines 425 and 443).
\<close>

definition refetch_module :: "'w browser \<Rightarrow> nat \<Rightarrow> ('w, elem option) io" where
  "refetch_module B module_index =
     bnd (call_elems B (Page_query_selector_all Sel_collapse_item)) (\<lambda>modules.
       if module_index \<ge> length modules then ret None
       else
         bnd (call_text B (Elem_get_attribute (modules ! module_index) ''class''))
           (\<lambda>module_class.
             if \<not> is_expanded module_class then
               bnd (call_elem B
                      (Elem_query_selector (modules ! module_index) Sel_collapse_title))
                 (\<lambda>button.
               bnd (set_title_button button) (\<lambda>_.
                 case button of
                   None \<Rightarrow> ret (Some (modules ! module_index))
                 | Some b \<Rightarrow>
                     bnd (call_unit B (Elem_click b None False)) (\<lambda>_.
                     bnd (sleep B 2) (\<lambda>_.
                     bnd (call_elems B (Page_query_selector_all Sel_collapse_item))
                       (\<lambda>modules2.
                         if module_index \<ge> length modules2 then ret None
                         else ret (Some (modules2 ! module_index)))))))
             else ret (Some (modules ! module_index))))"

text \<open>
  Lines 450-465: the scan for the first lesson that is not passed. \<open>idx\<close> is the
  position of the head of the list (\<^verbatim>\<open>enumerate\<close>); the result is \<^verbatim>\<open>item\<close> with
  \<^verbatim>\<open>item_position\<close>, or \<^const>\<open>None\<close> when the loop ends without a \<^verbatim>\<open>break\<close>. The title is
  fetched for printing only.
\<close>

fun find_unfinished :: "'w browser \<Rightarrow> elem list \<Rightarrow> nat \<Rightarrow> ('w, (elem \<times> nat) option) io" where
  "find_unfinished B [] idx = ret None"
| "find_unfinished B (course_item # rest) idx =
     bnd (call_text B (Elem_get_attribute course_item ''class'')) (\<lambda>item_class.
       if \<not> is_passed item_class then
         bnd (call_elem B (Elem_query_selector course_item Sel_title)) (\<lambda>item_title_elem.
         bnd (case item_title_elem of
                Some t \<Rightarrow> bnd (call_text B (Elem_text_content t)) (\<lambda>_. ret ())
              | None \<Rightarrow> ret ()) (\<lambda>_.
           ret (Some (course_item, idx + 1))))
       else find_unfinished B rest (idx + 1))"

text \<open>
  Lines 474-506: the lesson is opened. A plain click, on failure a forced click, on
  failure a click from a script; the outer handler re-raises.
\<close>

definition click_course_item :: "'w browser \<Rightarrow> elem \<Rightarrow> ('w, unit) io" where
  "click_course_item B item =
     try_except
       (bnd (call_bool B (Elem_is_visible item)) (\<lambda>_.
        bnd (call_unit B (Elem_scroll_into_view_if_needed item)) (\<lambda>_.
        bnd (sleep B 1) (\<lambda>_.
          try_except (call_unit B (Elem_click item (Some 5000) False)) (\<lambda>e1.
            try_except (call_unit B (Elem_click item None True)) (\<lambda>e2.
              call_unit B (Elem_evaluate item Js_element_click)))))))
       (\<lambda>e. raise e)"

text \<open>
  Lines 508-517 and 519-594: after the waits the frames are read and the content frame
  is chosen by \<^const>\<open>find_iframe\<close>; without one the main frame is used. Lines 531-582 await
  nothing, so they see one list of frames and one page address.
\<close>

definition wait_for_page :: "'w browser \<Rightarrow> ('w, unit) io" where
  "wait_for_page B =
     bnd (sleep B 3) (\<lambda>_.
       try_except (call_unit B (Page_wait_for_load_state Domcontentloaded 10000))
         (\<lambda>e. ret ()))"

definition locate_iframe :: "'w browser \<Rightarrow> ('w, frame) io" where
  "locate_iframe B =
     bnd (sleep B 3) (\<lambda>_. (\<lambda>s.
       (case find_iframe (get_url B (world s)) (get_frames B (world s)) of
          None \<Rightarrow> ret (get_main_frame B (world s)) s
        | Some f \<Rightarrow> ret f s)))"

text \<open>Lines 596-613: the waits before the lesson is looked at.\<close>

definition wait_for_iframe :: "'w browser \<Rightarrow> ('w, unit) io" where
  "wait_for_iframe B =
     bnd (sleep B 3) (\<lambda>_.
     bnd (try_except (call_unit B (Page_wait_for_load_state Networkidle 10000))
            (\<lambda>e. ret ())) (\<lambda>_.
       sleep_times B 5 1))"

text \<open>
  Lines 615-627, \<^verbatim>\<open>is_video_course\<close>: the frame shows the wifi text. A failing query
  leaves the default \<^verbatim>\<open>False\<close>.
\<close>

definition detect_video_course :: "'w browser \<Rightarrow> frame \<Rightarrow> ('w, bool) io" where
  "detect_video_course B iframe =
     try_except
       (bnd (call_elem B (Frame_query_selector iframe Sel_wifi_tip)) (\<lambda>wifi_tip.
          ret (wifi_tip \<noteq> None)))
       (\<lambda>e. ret False)"

text \<open>
  Lines 640-704: the four ways to press the start button, each in the \<^verbatim>\<open>except\<close> branch
  of the one before. The result is \<^verbatim>\<open>start_btn_clicked\<close>.
\<close>

definition start_method1 :: "'w browser \<Rightarrow> frame \<Rightarrow> ('w, bool) io" where
  "start_method1 B iframe =
     bnd (call_unit B (Frame_wait_for_selector iframe Sel_btn_start_any 20000
            (Some ''visible''))) (\<lambda>_.
     bnd (sleep B 2) (\<lambda>_.
     bnd (call_bool B (Frame_is_visible iframe Sel_btn_start)) (\<lambda>_.
     bnd (call_unit B (Frame_click iframe Sel_btn_start (Some 5000))) (\<lambda>_.
     bnd (sleep B 5) (\<lambda>_. ret True)))))"

definition start_method2 :: "'w browser \<Rightarrow> frame \<Rightarrow> ('w, bool) io" where
  "start_method2 B iframe =
     bnd (call_unit B (Frame_wait_for_selector iframe Sel_img_btn_start 10000 None)) (\<lambda>_.
     bnd (call_unit B (Frame_click iframe Sel_a_img_btn_start None)) (\<lambda>_.
     bnd (sleep B 5) (\<lambda>_. ret True)))"

definition start_method3 :: "'w browser \<Rightarrow> frame \<Rightarrow> ('w, bool) io" where
  "start_method3 B iframe =
     bnd (call_unit B (Frame_click iframe Sel_pri_start_btn None)) (\<lambda>_.
     bnd (sleep B 5) (\<lambda>_. ret True))"

definition start_method4 :: "'w browser \<Rightarrow> frame \<Rightarrow> ('w, bool) io" where
  "start_method4 B iframe =
     bnd (call_elems B (Frame_query_selector_all iframe Sel_class_start)) (\<lambda>start_elems.
       case start_elems of
         [] \<Rightarrow> ret False
       | first # _ \<Rightarrow>
           bnd (call_unit B (Elem_click first None False)) (\<lambda>_.
           bnd (sleep B 5) (\<lambda>_. ret True)))"

definition click_start_button :: "'w browser \<Rightarrow> frame \<Rightarrow> ('w, bool) io" where
  "click_start_button B iframe =
     try_except (start_method1 B iframe) (\<lambda>e.
       try_except (start_method2 B iframe) (\<lambda>e2.
         try_except (start_method3 B iframe) (\<lambda>e3.
           try_except (start_method4 B iframe) (\<lambda>e4. ret False))))"

text \<open>Lines 615-707: a video lesson needs no start button.\<close>

definition start_course :: "'w browser \<Rightarrow> frame \<Rightarrow> ('w, bool) io" where
  "start_course B iframe =
     bnd (detect_video_course B iframe) (\<lambda>is_video_course.
       if is_video_course then ret True
       else click_start_button B iframe)"

text \<open>
  Lines 709-750: the frame is asked whether \<^verbatim>\<open>finishWxCourse\<close> is a function, once more
  after ten seconds if not; if it is, it is called. The two questions are outside any
  \<^verbatim>\<open>try\<close> of this block.
\<close>

definition finish_course :: "'w browser \<Rightarrow> frame \<Rightarrow> ('w, unit) io" where
  "finish_course B iframe =
     bnd (call_js B (Frame_evaluate iframe Js_typeof_finish)) (\<lambda>func_exists.
     bnd (if \<not> py_truthy func_exists then
            bnd (sleep B 10) (\<lambda>_. call_js B (Frame_evaluate iframe Js_typeof_finish))
          else ret func_exists) (\<lambda>func_exists.
       if py_truthy func_exists then
         try_except
           (bnd (call_js B (Frame_evaluate iframe Js_finish)) (\<lambda>_. ret ()))
           (\<lambda>e. ret ())
       else
         try_except
           (bnd (call_js B (Frame_evaluate iframe Js_frame_info)) (\<lambda>_. ret ()))
           (\<lambda>e. ret ())))"

text \<open>
  Lines 756-818: back to the list, by the first back button found or by the browser's
  history, and the module is expanded again. Any failure is printed and dropped.
\<close>

definition find_back_button :: "'w browser \<Rightarrow> ('w, elem option) io" where
  "find_back_button B =
     bnd (call_elem B (Page_query_selector Sel_back_to_list)) (\<lambda>back_btn.
     bnd (if back_btn = None then call_elem B (Page_query_selector Sel_comment_footer_button)
          else ret back_btn) (\<lambda>back_btn.
       if back_btn = None then call_elem B (Page_query_selector Sel_back_generic)
       else ret back_btn))"

definition reexpand_module :: "'w browser \<Rightarrow> nat \<Rightarrow> ('w, unit) io" where
  "reexpand_module B module_index =
     bnd (call_elems B (Page_query_selector_all Sel_collapse_item)) (\<lambda>modules.
       if module_index < length modules then
         bnd (call_text B (Elem_get_attribute (modules ! module_index) ''class''))
           (\<lambda>module_class.
         bnd (if \<not> is_expanded module_class then
                bnd (call_elem B
                       (Elem_query_selector (modules ! module_index) Sel_collapse_title))
                  (\<lambda>button.
                bnd (set_title_button button) (\<lambda>_.
                  case button of
                    Some b \<Rightarrow> bnd (call_unit B (Elem_click b None False)) (\<lambda>_. sleep B 2)
                  | None \<Rightarrow> ret ()))
              else ret ()) (\<lambda>_.
         bnd (call_elems B
                (Elem_query_selector_all (modules ! module_index) Sel_img_texts_item))
           (\<lambda>_. ret ())))
       else ret ())"

definition return_to_list :: "'w browser \<Rightarrow> nat \<Rightarrow> ('w, unit) io" where
  "return_to_list B module_index =
     try_except
       (bnd (find_back_button B) (\<lambda>back_btn.
        bnd (case back_btn of
               Some b \<Rightarrow> call_unit B (Elem_click b None False)
             | None \<Rightarrow> call_unit B Page_go_back) (\<lambda>_.
        bnd (sleep B 3) (\<lambda>_.
        bnd (try_except (call_unit B (Page_wait_for_load_state Networkidle 10000))
               (\<lambda>e. ret ())) (\<lambda>_.
          reexpand_module B module_index)))))
       (\<lambda>e. ret ())"

text \<open>Lines 615-750: what is done inside the content frame.\<close>

definition complete_in_frame :: "'w browser \<Rightarrow> frame \<Rightarrow> ('w, unit) io" where
  "complete_in_frame B iframe =
     bnd (start_course B iframe) (\<lambda>start_btn_clicked. finish_course B iframe)"

text \<open>
  Lines 472-826: everything done with the lesson the scan chose, and with line 828,
  \<^verbatim>\<open>completed_count += 1\<close>, the last statement of the \<^verbatim>\<open>try\<close> block.
\<close>

definition lesson_steps :: "'w browser \<Rightarrow> nat \<Rightarrow> elem \<Rightarrow> ('w, unit) io" where
  "lesson_steps B module_index item =
     bnd (click_course_item B item) (\<lambda>_.
     bnd (wait_for_page B) (\<lambda>_.
     bnd (locate_iframe B) (\<lambda>iframe.
     bnd (wait_for_iframe B) (\<lambda>_.
     bnd (complete_in_frame B iframe) (\<lambda>_.
     bnd (sleep B 3) (\<lambda>_.
     bnd (return_to_list B module_index) (\<lambda>_.
       sleep_times B 6 10)))))))"

definition process_lesson :: "'w browser \<Rightarrow> nat \<Rightarrow> elem \<Rightarrow> ('w, unit) io" where
  "process_lesson B module_index item =
     bnd (lesson_steps B module_index item) (\<lambda>_. increment_completed_count)"

datatype loop_ctl = Loop_break | Loop_next

text \<open>
  Lines 421-470: the lesson to work on, \<^const>\<open>None\<close> for each \<^verbatim>\<open>break\<close> (the module is
  gone, or no lesson is left unfinished).
\<close>

definition select_lesson :: "'w browser \<Rightarrow> nat \<Rightarrow> ('w, (elem \<times> nat) option) io" where
  "select_lesson B module_index =
     bnd (refetch_module B module_index) (\<lambda>found.
       case found of
         None \<Rightarrow> ret None
       | Some module \<Rightarrow>
           bnd (call_elems B (Elem_query_selector_all module Sel_img_texts_item))
             (\<lambda>course_items. find_unfinished B course_items 0))"

definition lesson_body :: "'w browser \<Rightarrow> nat \<Rightarrow> ('w, loop_ctl) io" where
  "lesson_body B module_index =
     bnd (select_lesson B module_index) (\<lambda>selected.
       case selected of
         None \<Rightarrow> ret Loop_break
       | Some (item, item_position) \<Rightarrow>
           bnd (process_lesson B module_index item) (\<lambda>_. ret Loop_next))"

text \<open>
  Lines 420 and 831-839: the body in its \<^verbatim>\<open>try\<close>; the handler sleeps ten seconds and
  runs \<^verbatim>\<open>continue\<close>. So a pass never raises: it leaves the loop or goes round again.
\<close>

definition lesson_iteration :: "'w browser \<Rightarrow> nat \<Rightarrow> 'w st \<Rightarrow> loop_ctl \<times> 'w st" where
  "lesson_iteration B module_index s =
     (case lesson_body B module_index s of
        (Inr ctl, s') \<Rightarrow> (ctl, s')
      | (Inl e, s') \<Rightarrow> (Loop_next, snd (sleep B 10 s')))"

text \<open>
  Line 419, \<^verbatim>\<open>while True\<close>: the loop has no bound, so it is a partial function and
  \<^const>\<open>None\<close> means that it never ends.
\<close>

partial_function (option) lesson_loop :: "'w browser \<Rightarrow> nat \<Rightarrow> 'w st \<Rightarrow> 'w st option" where
  "lesson_loop B module_index s =
     (case lesson_iteration B module_index s of
        (Loop_break, s') \<Rightarrow> Some s'
      | (Loop_next, s') \<Rightarrow> lesson_loop B module_index s')"

declare lesson_loop.simps [code]

text \<open>
  The same loop cut off after \<open>n\<close> passes: the state in which the loop is left if that
  happens within \<open>n\<close> passes, \<^const>\<open>None\<close> if the loop is still running then. It is total,
  and says what \<^const>\<open>lesson_loop\<close> returns.
\<close>

fun lesson_passes :: "'w browser \<Rightarrow> nat \<Rightarrow> nat \<Rightarrow> 'w st \<Rightarrow> 'w st option" where
  "lesson_passes B module_index 0 s = None"
| "lesson_passes B module_index (Suc n) s =
     (case lesson_iteration B module_index s of
        (Loop_break, s') \<Rightarrow> Some s'
      | (Loop_next, s') \<Rightarrow> lesson_passes B module_index n s')"

subsection \<open>The module loop (lines 362-858)\<close>

text \<open>Lines 841-847: the module is collapsed again; a failure is ignored.\<close>

definition collapse_module :: "'w browser \<Rightarrow> ('w, unit) io" where
  "collapse_module B =
     try_except
       (\<lambda>s. (case title_button s of
                Some b \<Rightarrow> bnd (call_unit B (Elem_click b None False)) (\<lambda>_. sleep B 1)
              | None \<Rightarrow> ret ()) s)
       (\<lambda>e. ret ())"

text \<open>
  One pass of \<^verbatim>\<open>while module_index < total_modules\<close>: the result is how the loop goes on
  and the next \<^verbatim>\<open>module_index\<close>. The only statements that can raise up to the handler of
  lines 852-858 are those of the head, since the lesson loop and the collapse catch
  their own exceptions; the handler adds one to the index. After \<^const>\<open>No_course_items\<close>
  (line 414) the index is what it was.
\<close>

definition module_iteration ::
  "'w browser \<Rightarrow> nat \<Rightarrow> 'w st \<Rightarrow> ((loop_ctl \<times> nat) \<times> 'w st) option" where
  "module_iteration B module_index s =
     (case module_head B module_index s of
        (Inl e, s1) \<Rightarrow> Some ((Loop_next, module_index + 1), s1)
      | (Inr Modules_exhausted, s1) \<Rightarrow> Some ((Loop_break, module_index), s1)
      | (Inr Module_skipped, s1) \<Rightarrow> Some ((Loop_next, module_index + 1), s1)
      | (Inr No_course_items, s1) \<Rightarrow> Some ((Loop_next, module_index), s1)
      | (Inr Enter_lessons, s1) \<Rightarrow>
          Option.bind (lesson_loop B module_index s1) (\<lambda>s2.
            Some ((Loop_next, module_index + 1), snd (collapse_module B s2))))"

partial_function (option) module_loop ::
  "'w browser \<Rightarrow> nat \<Rightarrow> nat \<Rightarrow> 'w st \<Rightarrow> 'w st option" where
  "module_loop B total_modules module_index s =
     (if module_index < total_modules then
        Option.bind (module_iteration B module_index s) (\<lambda>((ctl, next_index), s').
          case ctl of
            Loop_break \<Rightarrow> Some s'
          | Loop_next \<Rightarrow> module_loop B total_modules next_index s')
      else Some s)"

declare module_loop.simps [code]

text \<open>
  Lines 346-867, step 3 as a whole: the list is awaited, the modules are counted once,
  and the loop runs; an exception before the loop is printed and dropped.
\<close>

definition process_modules :: "'w browser \<Rightarrow> 'w st \<Rightarrow> 'w st option" where
  "process_modules B s =
     (case bnd (call_unit B (Page_wait_for_selector Sel_collapse_item 10000)) (\<lambda>_.
           bnd (sleep B 2) (\<lambda>_.
             call_elems B (Page_query_selector_all Sel_collapse_item))) s of
        (Inl e, s1) \<Rightarrow> Some s1
      | (Inr modules, s1) \<Rightarrow>
          module_loop B (length modules) 0 (s1\<lparr>completed_count := 0\<rparr>))"

section \<open>Reading a trace\<close>

text \<open>
  The properties below are stated on the calls a run has made. These functions read a
  list of events; the script has no counterpart of them.
\<close>

text \<open>The class attributes read, each with the element it was read from.\<close>

fun class_read :: "event \<Rightarrow> (elem \<times> string option) option" where
  "class_read (Elem_get_attribute e a, R_text c) = (if a = ''class'' then Some (e, c) else None)"
| "class_read ev = None"

definition class_reads :: "event list \<Rightarrow> (elem \<times> string option) list" where
  "class_reads evs = List.map_filter class_read evs"

text \<open>The element a call acts on, for the calls that click, scroll or run a script.\<close>

fun acts_on :: "call \<Rightarrow> elem option" where
  "acts_on (Elem_click e t f) = Some e"
| "acts_on (Elem_scroll_into_view_if_needed e) = Some e"
| "acts_on (Elem_evaluate e js) = Some e"
| "acts_on c = None"

text \<open>
  Which of the four ways to press the start button a call belongs to, by its selector;
  the only click on an element handle in that block is the fourth way's.
\<close>

fun strategy_of :: "call \<Rightarrow> nat option" where
  "strategy_of (Frame_wait_for_selector f sel t st) =
     (if sel = Sel_btn_start_any then Some 1
      else if sel = Sel_img_btn_start then Some 2 else None)"
| "strategy_of (Frame_is_visible f sel) = (if sel = Sel_btn_start then Some 1 else None)"
| "strategy_of (Frame_click f sel t) =
     (if sel = Sel_btn_start then Some 1
      else if sel = Sel_a_img_btn_start then Some 2
      else if sel = Sel_pri_start_btn then Some 3 else None)"
| "strategy_of (Frame_query_selector_all f sel) =
     (if sel = Sel_class_start then Some 4 else None)"
| "strategy_of (Elem_click e t f) = Some 4"
| "strategy_of c = None"

definition attempts :: "event list \<Rightarrow> nat list" where
  "attempts evs = remdups_adj (List.map_filter (\<lambda>ev. strategy_of (fst ev)) evs)"

fun is_raised :: "response \<Rightarrow> bool" where
  "is_raised (Raised e) = True"
| "is_raised r = False"

fun is_click :: "call \<Rightarrow> bool" where
  "is_click (Frame_click f sel t) = True"
| "is_click (Elem_click e t f) = True"
| "is_click c = False"

text \<open>
  The calls of the strategies come in order: those of strategy \<open>cur\<close>, and a call of
  the next strategy only when the last call of \<open>cur\<close> raised.
\<close>

fun in_order :: "nat \<Rightarrow> bool \<Rightarrow> event list \<Rightarrow> bool" where
  "in_order cur failed [] = True"
| "in_order cur failed (ev # evs) =
     (case strategy_of (fst ev) of
        None \<Rightarrow> in_order cur failed evs
      | Some i \<Rightarrow>
          if i = cur then in_order cur (is_raised (snd ev)) evs
          else if i = cur + 1 \<and> failed then in_order i (is_raised (snd ev)) evs
          else False)"

text \<open>After a click that did not raise, no call of any strategy follows.\<close>

fun stops_at_success :: "event list \<Rightarrow> bool" where
  "stops_at_success [] = True"
| "stops_at_success (ev # evs) =
     (if is_click (fst ev) \<and> \<not> is_raised (snd ev)
      then list_all (\<lambda>ev'. strategy_of (fst ev') = None) evs
      else stops_at_success evs)"

text \<open>A poll that found the completion function, and a call of it.\<close>

fun poll_found :: "event \<Rightarrow> bool" where
  "poll_found (Frame_evaluate f js, R_js v) = (js = Js_typeof_finish \<and> py_truthy v)"
| "poll_found ev = False"

fun is_finish_call :: "call \<Rightarrow> bool" where
  "is_finish_call (Frame_evaluate f js) = (js = Js_finish)"
| "is_finish_call c = False"

text \<open>
  A run of \<open>m\<close> from any state only adds events, the added events satisfy \<open>R\<close>, and
  \<^verbatim>\<open>completed_count\<close> stays as it was.
\<close>

definition traces :: "('w, 'a) io \<Rightarrow> (event list \<Rightarrow> bool) \<Rightarrow> bool" where
  "traces m R =
     (\<forall>s. \<exists>evs. trace (snd (m s)) = trace s @ evs \<and> R evs
        \<and> completed_count (snd (m s)) = completed_count s)"

definition closed_under_append :: "(event list \<Rightarrow> bool) \<Rightarrow> bool" where
  "closed_under_append R = (R [] \<and> (\<forall>a b. R a \<longrightarrow> R b \<longrightarrow> R (a @ b)))"


text \<open>
  \<open>R\<close> holds of the empty list, of joined lists, and of every single call that is not
  a script run in a frame.
\<close>

definition neutral :: "(event list \<Rightarrow> bool) \<Rightarrow> bool" where
  "neutral R = (closed_under_append R
     \<and> (\<forall>c r. (\<forall>f js. c \<noteq> Frame_evaluate f js) \<longrightarrow> R [(c, r)]))"

text \<open>The completion function was called exactly if a poll found it.\<close>

definition finish_iff_found :: "event list \<Rightarrow> bool" where
  "finish_iff_found evs = (list_ex (is_finish_call \<circ> fst) evs = list_ex poll_found evs)"

text \<open>
  "Exactly two integer components": the stripped text is \<open>x/y\<close> with no further
  separator, and \<^verbatim>\<open>int\<close> accepts both parts.
\<close>

definition two_integer_components :: "string \<Rightarrow> bool" where
  "two_integer_components t =
     (\<exists>x y a b. strip t = x @ ''/'' @ y \<and> CHR ''/'' \<notin> set x \<and> CHR ''/'' \<notin> set y
        \<and> py_int x = Inr a \<and> py_int y = Inr b)"

text \<open>
  The three tests of the scans of lines 544-582, as predicates on a frame: the address
  mentions the content domain; it mentions a course path and not the outer page's
  domain; it is not the page's own address. All three pass over placeholders.
\<close>

definition mentions_content_domain :: "frame \<Rightarrow> bool" where
  "mentions_content_domain f =
     (\<not> placeholder (frame_url f) \<and> str_in ''mcwk.mycourse.cn'' (frame_url f))"

definition mentions_course_path :: "frame \<Rightarrow> bool" where
  "mentions_course_path f =
     (\<not> placeholder (frame_url f) \<and> \<not> str_in ''weiban.mycourse.cn'' (frame_url f)
      \<and> str_in ''/course/'' (lower (frame_url f)))"

definition not_main_page :: "string \<Rightarrow> frame \<Rightarrow> bool" where
  "not_main_page page_url f = (\<not> placeholder (frame_url f) \<and> frame_url f \<noteq> page_url)"

text \<open>
  The resolver in the words of the specification, for comparison with the script's. An
  address is read as \<^verbatim>\<open>scheme://host/path?query#fragment\<close>: the host is what follows
  \<^verbatim>\<open>://\<close> up to the next \<^verbatim>\<open>/\<close>, \<^verbatim>\<open>?\<close> or \<^verbatim>\<open>#\<close>, the path what follows the host up to \<^verbatim>\<open>?\<close> or
  \<^verbatim>\<open>#\<close>. A frame is on a domain when its host is that domain; a path has a course
  segment when one of its parts between slashes is \<^verbatim>\<open>course\<close>; a script pseudo-URL is an
  address of the \<^verbatim>\<open>javascript:\<close> scheme.
\<close>

fun after_first :: "string \<Rightarrow> string \<Rightarrow> string option" where
  "after_first p [] = (if p = [] then Some [] else None)"
| "after_first p (c # cs) =
     (if starts_with p (c # cs) then Some (drop (length p) (c # cs)) else after_first p cs)"

definition url_host :: "string \<Rightarrow> string" where
  "url_host u =
     (case after_first ''://'' u of
        None \<Rightarrow> []
      | Some r \<Rightarrow> takeWhile (\<lambda>c. c \<notin> set ''/?#'') r)"

definition url_path :: "string \<Rightarrow> string" where
  "url_path u =
     (case after_first ''://'' u of
        None \<Rightarrow> []
      | Some r \<Rightarrow> takeWhile (\<lambda>c. c \<notin> set ''?#'') (dropWhile (\<lambda>c. c \<notin> set ''/?#'') r))"

definition excluded_as_claimed :: "frame \<Rightarrow> bool" where
  "excluded_as_claimed f =
     (frame_url f = [] \<or> frame_url f = ''about:blank''
      \<or> starts_with ''javascript:'' (frame_url f))"

definition on_content_domain :: "frame \<Rightarrow> bool" where
  "on_content_domain f = (url_host (frame_url f) = ''mcwk.mycourse.cn'')"

definition on_main_domain :: "frame \<Rightarrow> bool" where
  "on_main_domain f = (url_host (frame_url f) = ''weiban.mycourse.cn'')"

definition has_course_segment :: "frame \<Rightarrow> bool" where
  "has_course_segment f = (''course'' \<in> set (split_on CHR ''/'' (url_path (frame_url f))))"

definition resolve_as_claimed :: "string \<Rightarrow> frame list \<Rightarrow> frame option" where
  "resolve_as_claimed page_url frames =
     (case find (\<lambda>f. \<not> excluded_as_claimed f \<and> on_content_domain f) frames of
        Some f \<Rightarrow> Some f
      | None \<Rightarrow>
          (case find (\<lambda>f. \<not> excluded_as_claimed f \<and> \<not> on_main_domain f
                        \<and> has_course_segment f) frames of
             Some f \<Rightarrow> Some f
           | None \<Rightarrow>
               find (\<lambda>f. \<not> excluded_as_claimed f \<and> frame_url f \<noteq> page_url) frames))"

text \<open>
  Frames on which the two differ: an advertisement whose query names the content domain,
  before a frame of the content domain; and a frame whose path is \<^verbatim>\<open>/course\<close>, with no
  slash after it, behind a frame of no interest.
\<close>

definition advert_frames :: "frame list" where
  "advert_frames =
     [\<lparr>frame_id = 0, frame_url = ''https://ads.example/?u=mcwk.mycourse.cn'', frame_name = []\<rparr>,
      \<lparr>frame_id = 1, frame_url = ''https://mcwk.mycourse.cn/course/1'', frame_name = []\<rparr>]"

definition bare_course_frames :: "frame list" where
  "bare_course_frames =
     [\<lparr>frame_id = 0, frame_url = ''https://cdn.example/x'', frame_name = []\<rparr>,
      \<lparr>frame_id = 1, frame_url = ''https://content.example/course'', frame_name = []\<rparr>]"



section \<open>Pages to run the script on\<close>

text \<open>
  A page that answers every call the same way each time: one module (element 0) with a
  title (1), a progress text (2), a title button (3) and lessons (elements 10, 11, ...),
  given by
  \<^item> the progress text,
  \<^item> the class attribute of each lesson,
  \<^item> whether the content frame shows the wifi text,
  \<^item> whether the start button can be waited for and clicked,
  \<^item> whether \<^verbatim>\<open>finishWxCourse\<close> is a function there.
\<close>

record scenario =
  count_text_of :: "string option"
  lesson_classes :: "string list"
  wifi_text :: bool
  start_button :: bool
  finish_function :: bool

definition example_frames :: "frame list" where
  "example_frames =
     [\<lparr>frame_id = 0, frame_url = ''about:blank'', frame_name = []\<rparr>,
      \<lparr>frame_id = 1, frame_url = ''https://cdn.example/x'', frame_name = []\<rparr>,
      \<lparr>frame_id = 2, frame_url = ''https://content.example/course/42'', frame_name = []\<rparr>]"

definition content_frame :: frame where
  "content_frame = \<lparr>frame_id = 2, frame_url = ''https://content.example/course/42'',
     frame_name = []\<rparr>"

definition page_elem :: "scenario \<Rightarrow> call \<Rightarrow> elem option" where
  "page_elem sc c =
     (case c of
        Elem_query_selector e sel \<Rightarrow>
          (if e = 0 \<and> sel = Sel_text then Some 1
           else if e = 0 \<and> sel = Sel_count then Some 2
           else if e = 0 \<and> sel = Sel_collapse_title then Some 3
           else None)
      | Frame_query_selector f sel \<Rightarrow>
          (if sel = Sel_wifi_tip \<and> wifi_text sc then Some 4 else None)
      | Page_query_selector sel \<Rightarrow> (if sel = Sel_back_to_list then Some 5 else None)
      | _ \<Rightarrow> None)"

definition page_elems :: "scenario \<Rightarrow> call \<Rightarrow> elem list" where
  "page_elems sc c =
     (case c of
        Page_query_selector_all sel \<Rightarrow> (if sel = Sel_collapse_item then [0] else [])
      | Elem_query_selector_all e sel \<Rightarrow>
          (if e = 0 \<and> sel = Sel_img_texts_item
           then map (\<lambda>k. 10 + k) [0..<length (lesson_classes sc)] else [])
      | _ \<Rightarrow> [])"

definition page_text :: "scenario \<Rightarrow> call \<Rightarrow> string option" where
  "page_text sc c =
     (case c of
        Elem_text_content e \<Rightarrow>
          (if e = 2 then count_text_of sc else if e = 1 then Some ''module'' else None)
      | Elem_get_attribute e a \<Rightarrow>
          (if e = 0 then Some ''van-collapse-item van-collapse-item--expanded''
           else if 10 \<le> e \<and> e < 10 + length (lesson_classes sc)
           then Some (lesson_classes sc ! (e - 10)) else None)
      | _ \<Rightarrow> None)"

definition page_unit :: "scenario \<Rightarrow> call \<Rightarrow> exn + unit" where
  "page_unit sc c =
     (case c of
        Frame_wait_for_selector f sel t st \<Rightarrow>
          (if start_button sc then Inr () else Inl TimeoutError)
      | Frame_click f sel t \<Rightarrow> (if start_button sc then Inr () else Inl TimeoutError)
      | _ \<Rightarrow> Inr ())"

definition page_js :: "scenario \<Rightarrow> call \<Rightarrow> jsval" where
  "page_js sc c =
     (case c of
        Frame_evaluate f js \<Rightarrow>
          (if js = Js_typeof_finish then JBool (finish_function sc) else JNull)
      | _ \<Rightarrow> JNull)"

definition page_browser :: "scenario \<Rightarrow> unit browser" where
  "page_browser sc =
     \<lparr>do_unit = (\<lambda>c w. (page_unit sc c, w)),
      do_elem = (\<lambda>c w. (Inr (page_elem sc c), w)),
      do_elems = (\<lambda>c w. (Inr (page_elems sc c), w)),
      do_text = (\<lambda>c w. (Inr (page_text sc c), w)),
      do_bool = (\<lambda>c w. (Inr True, w)),
      do_js = (\<lambda>c w. (Inr (page_js sc c), w)),
      do_sleep = (\<lambda>n w. w),
      get_frames = (\<lambda>w. example_frames),
      get_url = (\<lambda>w. ''https://weiban.mycourse.cn/#/course''),
      get_main_frame = (\<lambda>w. \<lparr>frame_id = 9,
        frame_url = ''https://weiban.mycourse.cn/#/course'', frame_name = []\<rparr>)\<rparr>"

definition start_state :: "unit st" where
  "start_state = \<lparr>world = (), trace = [], title_button = None, completed_count = 0\<rparr>"

text \<open>
  An interactive lesson on which nothing works: no wifi text, no start button, no
  completion function.
\<close>

definition dead_lesson :: scenario where
  "dead_lesson = \<lparr>count_text_of = Some ''0/1'', lesson_classes = [''img-texts-item''],
     wifi_text = False, start_button = False, finish_function = False\<rparr>"

text \<open>A video lesson with the completion function.\<close>

definition video_lesson :: scenario where
  "video_lesson = \<lparr>count_text_of = Some ''1/2'',
     lesson_classes = [''img-texts-item passed'', ''img-texts-item''],
     wifi_text = True, start_button = False, finish_function = True\<rparr>"

text \<open>A module that says \<^verbatim>\<open>0/3\<close> and lists no lesson.\<close>

definition empty_module :: scenario where
  "empty_module = \<lparr>count_text_of = Some ''0/3'', lesson_classes = [],
     wifi_text = False, start_button = False, finish_function = False\<rparr>"


text \<open>A module whose progress text has three parts.\<close>

definition odd_module :: scenario where
  "odd_module = \<lparr>count_text_of = Some ''1/2/3'', lesson_classes = [''img-texts-item''],
     wifi_text = False, start_button = False, finish_function = False\<rparr>"



text \<open>
  A page that changes: a module with two lessons on an interactive page without a start
  button, where \<^verbatim>\<open>finishWxCourse\<close> is a function. The state of the page is the number of
  times that function has been called, and the first so many lessons carry the marker.
\<close>

definition marked :: "nat \<Rightarrow> scenario" where
  "marked w = \<lparr>count_text_of = Some ''0/2'',
     lesson_classes = [if 0 < w then ''img-texts-item passed'' else ''img-texts-item'',
                       if 1 < w then ''img-texts-item passed'' else ''img-texts-item''],
     wifi_text = False, start_button = False, finish_function = True\<rparr>"

definition completing_browser :: "nat browser" where
  "completing_browser =
     \<lparr>do_unit = (\<lambda>c w. (page_unit (marked w) c, w)),
      do_elem = (\<lambda>c w. (Inr (page_elem (marked w) c), w)),
      do_elems = (\<lambda>c w. (Inr (page_elems (marked w) c), w)),
      do_text = (\<lambda>c w. (Inr (page_text (marked w) c), w)),
      do_bool = (\<lambda>c w. (Inr True, w)),
      do_js = (\<lambda>c w. (Inr (page_js (marked w) c),
                 (case c of Frame_evaluate f js \<Rightarrow> if js = Js_finish then Suc w else w
                  | _ \<Rightarrow> w))),
      do_sleep = (\<lambda>n w. w),
      get_frames = (\<lambda>w. example_frames),
      get_url = (\<lambda>w. ''https://weiban.mycourse.cn/#/course''),
      get_main_frame = (\<lambda>w. \<lparr>frame_id = 9,
        frame_url = ''https://weiban.mycourse.cn/#/course'', frame_name = []\<rparr>)\<rparr>"

definition fresh_state :: "nat st" where
  "fresh_state = \<lparr>world = 0, trace = [], title_button = None, completed_count = 0\<rparr>"

text \<open>Two lessons on which nothing works, and whose markers never change.\<close>

definition dead_lessons :: scenario where
  "dead_lessons = \<lparr>count_text_of = Some ''0/2'',
     lesson_classes = [''img-texts-item'', ''img-texts-item''],
     wifi_text = False, start_button = False, finish_function = False\<rparr>"

section \<open>Text lemmas\<close>

declare nat_digits.simps [simp del]

lemma starts_with_iff: "starts_with p s = (\<exists>suf. s = p @ suf)"
  by (induction p s rule: starts_with.induct) auto

lemma str_in_iff: "str_in p s = (\<exists>pre suf. s = pre @ p @ suf)"
proof (induction s)
  case Nil
  then show ?case by auto
next
  case (Cons c cs)
  show ?case
  proof
    assume "str_in p (c # cs)"
    then consider "starts_with p (c # cs)" | "str_in p cs" by auto
    then show "\<exists>pre suf. c # cs = pre @ p @ suf"
    proof cases
      case 1
      then obtain suf where "c # cs = p @ suf" by (auto simp: starts_with_iff)
      then have "c # cs = [] @ p @ suf" by simp
      then show ?thesis by blast
    next
      case 2
      then obtain pre suf where "cs = pre @ p @ suf" using Cons.IH by auto
      then have "c # cs = (c # pre) @ p @ suf" by simp
      then show ?thesis by blast
    qed
  next
    assume "\<exists>pre suf. c # cs = pre @ p @ suf"
    then obtain pre suf where e: "c # cs = pre @ p @ suf" by blast
    show "str_in p (c # cs)"
    proof (cases pre)
      case Nil
      then have "starts_with p (c # cs)" using e by (auto simp: starts_with_iff)
      then show ?thesis by simp
    next
      case (Cons a pre')
      then have "cs = pre' @ p @ suf" using e by simp
      then have "str_in p cs" using Cons.IH by blast
      then show ?thesis by simp
    qed
  qed
qed

lemma class_tokens_from_infix:
  "t \<in> set (class_tokens_from cur s) \<Longrightarrow> \<exists>pre suf. cur @ s = pre @ t @ suf"
proof (induction cur s rule: class_tokens_from.induct)
  case (1 cur)
  then have "cur @ [] = [] @ t @ []" by (auto split: if_splits)
  then show ?case by blast
next
  case (2 cur c cs)
  show ?case
  proof (cases "html_space c")
    case True
    show ?thesis
    proof (cases "t = cur \<and> cur \<noteq> []")
      case True
      then have "cur @ c # cs = [] @ t @ (c # cs)" by simp
      then show ?thesis by blast
    next
      case False
      then have "t \<in> set (class_tokens_from [] cs)"
        using "2.prems" \<open>html_space c\<close> by (auto split: if_splits)
      then obtain pre suf where "[] @ cs = pre @ t @ suf"
        using "2.IH"(1,2) \<open>html_space c\<close> by (cases "cur = []") blast+
      then have "cur @ c # cs = (cur @ c # pre) @ t @ suf" by simp
      then show ?thesis by blast
    qed
  next
    case False
    then have "t \<in> set (class_tokens_from (cur @ [c]) cs)" using "2.prems" by simp
    then obtain pre suf where "(cur @ [c]) @ cs = pre @ t @ suf"
      using "2.IH"(3) False by blast
    then show ?thesis by auto
  qed
qed

lemma passed_token_is_passed: "has_passed_token item_class \<Longrightarrow> is_passed item_class"
proof -
  assume h: "has_passed_token item_class"
  then obtain c where c: "item_class = Some c" "''passed'' \<in> set (class_tokens_from [] c)"
    by (cases item_class) (auto simp: has_passed_token_def class_tokens_def)
  from class_tokens_from_infix [OF c(2)]
  obtain pre suf where e: "c = pre @ ''passed'' @ suf" by auto
  then have "str_in ''passed'' c" unfolding str_in_iff by blast
  moreover have "c \<noteq> []" using e by auto
  ultimately show ?thesis using c(1) by (simp add: is_passed_def)
qed

lemma digit_of_char_of: "d < 10 \<Longrightarrow> digit_of (char_of (48 + d)) = Some d"
  by (simp add: digit_of_def)

lemma digit_of_props:
  assumes "digit_of c = Some v"
  shows "c \<noteq> CHR ''_''" "c \<noteq> CHR ''/''" "c \<noteq> CHR ''-''" "c \<noteq> CHR ''+''"
    "\<not> py_isspace c" "\<not> int_isspace c"
  using assms by (auto simp: digit_of_def py_isspace_def int_isspace_def Let_def split: if_splits)

lemma nat_digits_all: "c \<in> set (nat_digits n) \<Longrightarrow> \<exists>v. digit_of c = Some v"
proof (induction n rule: nat_digits.induct)
  case (1 n)
  show ?case
  proof (cases "n < 10")
    case True
    then have "c = char_of (48 + n)" using "1.prems" by (subst (asm) nat_digits.simps) simp
    then show ?thesis using digit_of_char_of [OF True] by blast
  next
    case False
    then have "c \<in> set (nat_digits (n div 10)) \<or> c = char_of (48 + n mod 10)"
      using "1.prems" by (subst (asm) nat_digits.simps) auto
    then show ?thesis
    proof
      assume "c \<in> set (nat_digits (n div 10))"
      then show ?thesis using "1.IH" False by blast
    next
      assume "c = char_of (48 + n mod 10)"
      moreover have "n mod 10 < 10" by simp
      ultimately show ?thesis using digit_of_char_of by blast
    qed
  qed
qed

lemma nat_digits_nonempty: "nat_digits n \<noteq> []"
  by (subst nat_digits.simps) simp

lemma digits_from_snoc:
  "\<forall>c \<in> set xs. \<exists>v. digit_of c = Some v \<Longrightarrow> d < 10 \<Longrightarrow>
   digits_from acc (xs @ [char_of (48 + d)]) =
     (case digits_from acc xs of None \<Rightarrow> None | Some a \<Rightarrow> Some (10 * a + d))"
proof (induction xs arbitrary: acc)
  case Nil
  have "char_of (48 + d) \<noteq> CHR ''_''"
    using digit_of_props(1) digit_of_char_of [OF Nil(2)] by blast
  then show ?case using digit_of_char_of [OF Nil(2)] by simp
next
  case (Cons x xs)
  then obtain v where v: "digit_of x = Some v" by auto
  then have "x \<noteq> CHR ''_''" using digit_of_props(1) by blast
  then show ?case using v Cons by simp
qed

lemma digits_from_nat_digits: "digits_from 0 (nat_digits n) = Some n"
proof (induction n rule: nat_digits.induct)
  case (1 n)
  show ?case
  proof (cases "n < 10")
    case True
    have "char_of (48 + n) \<noteq> CHR ''_''"
      using digit_of_props(1) digit_of_char_of [OF True] by blast
    then show ?thesis using True digit_of_char_of [OF True]
      by (subst nat_digits.simps) simp
  next
    case False
    have m: "n mod 10 < 10" by simp
    have "digits_from 0 (nat_digits (n div 10) @ [char_of (48 + n mod 10)]) =
          Some (10 * (n div 10) + n mod 10)"
    proof -
      have "\<forall>c \<in> set (nat_digits (n div 10)). \<exists>v. digit_of c = Some v"
        using nat_digits_all by blast
      from digits_from_snoc [OF this m, of 0] show ?thesis using "1.IH" False by simp
    qed
    then show ?thesis using False by (subst nat_digits.simps) simp
  qed
qed

lemma digit_count_all_digits:
  "\<forall>c \<in> set s. \<exists>v. digit_of c = Some v \<Longrightarrow> digit_count s = length s"
  by (induction s) (auto simp: digit_count_def)

lemma py_digits_all_digits:
  assumes "s \<noteq> []" and "\<forall>c \<in> set s. \<exists>v. digit_of c = Some v"
  shows "py_digits s = (if length s > max_str_digits then None else digits_from 0 s)"
proof (cases s)
  case Nil
  then show ?thesis using assms by simp
next
  case (Cons c cs)
  then obtain v where v: "digit_of c = Some v" using assms by auto
  then have "c \<noteq> CHR ''_''" using digit_of_props(1) by blast
  then show ?thesis
    using v Cons digit_count_all_digits [OF assms(2)] by (simp add: py_digits_def)
qed

lemma py_digits_nat_digits:
  "py_digits (nat_digits n) =
     (if length (nat_digits n) > max_str_digits then None else Some n)"
proof -
  have "\<forall>c \<in> set (nat_digits n). \<exists>v. digit_of c = Some v"
    using nat_digits_all by blast
  from py_digits_all_digits [OF nat_digits_nonempty this] show ?thesis
    by (simp add: digits_from_nat_digits)
qed

lemma nat_digits_short: "n < 10 ^ k \<Longrightarrow> 0 < k \<Longrightarrow> length (nat_digits n) \<le> k"
proof (induction n arbitrary: k rule: nat_digits.induct)
  case (1 n)
  show ?case
  proof (cases "n < 10")
    case True
    then show ?thesis using "1.prems" by (subst nat_digits.simps) simp
  next
    case False
    obtain j where j: "k = Suc j" using "1.prems"(2) by (cases k) auto
    have d: "n div 10 < 10 ^ j" using "1.prems"(1) j by (simp add: less_mult_imp_div_less)
    have "0 < j"
    proof (rule ccontr)
      assume "\<not> 0 < j"
      then have "n < 10" using "1.prems"(1) j by simp
      then show False using False by simp
    qed
    from "1.IH" [OF False d this] show ?thesis
      using False j by (subst nat_digits.simps) simp
  qed
qed

lemma nat_digits_long: "10 ^ k \<le> n \<Longrightarrow> k < length (nat_digits n)"
proof (induction n arbitrary: k rule: nat_digits.induct)
  case (1 n)
  show ?case
  proof (cases "n < 10")
    case True
    have "k = 0"
    proof (cases k)
      case (Suc j)
      have "(1::nat) \<le> 10 ^ j" by simp
      then have "(10::nat) \<le> 10 ^ k" using Suc by simp
      then show ?thesis using True "1.prems" by simp
    qed simp
    then show ?thesis using True by (subst nat_digits.simps) simp
  next
    case False
    show ?thesis
    proof (cases k)
      case 0
      then show ?thesis using nat_digits_nonempty [of n] by (cases "nat_digits n") auto
    next
      case (Suc j)
      then have "10 ^ j \<le> n div 10" using "1.prems" by (simp add: less_eq_div_iff_mult_less_eq)
      from "1.IH" [OF False this] show ?thesis
        using False Suc by (subst nat_digits.simps) simp
    qed
  qed
qed

lemma dropWhile_id: "s \<noteq> [] \<Longrightarrow> \<not> P (hd s) \<Longrightarrow> dropWhile P s = s"
  by (cases s) auto

lemma trim_id:
  "s \<noteq> [] \<Longrightarrow> \<not> P (hd s) \<Longrightarrow> \<not> P (last s) \<Longrightarrow> rev (dropWhile P (rev (dropWhile P s))) = s"
  by (simp add: dropWhile_id hd_rev)

lemma py_str_chars:
  assumes "c \<in> set (py_str i)"
  shows "c \<noteq> CHR ''/'' \<and> \<not> py_isspace c \<and> \<not> int_isspace c"
proof -
  have "c = CHR ''-'' \<or> (\<exists>n. c \<in> set (nat_digits n))"
    using assms unfolding py_str_def by (cases "i < 0") auto
  then show ?thesis
  proof
    assume "c = CHR ''-''"
    then show ?thesis by (simp add: py_isspace_def int_isspace_def)
  next
    assume "\<exists>n. c \<in> set (nat_digits n)"
    then obtain v where "digit_of c = Some v" using nat_digits_all by blast
    from digit_of_props(2,5,6) [OF this] show ?thesis by simp
  qed
qed

lemma py_str_nonempty: "py_str i \<noteq> []"
  by (simp add: py_str_def nat_digits_nonempty)

lemma py_int_py_str:
  "py_int (py_str i) =
     (if length (nat_digits (nat \<bar>i\<bar>)) > max_str_digits then Inl ValueError else Inr i)"
proof -
  have "hd (py_str i) \<in> set (py_str i)" "last (py_str i) \<in> set (py_str i)"
    using py_str_nonempty by simp_all
  then have "\<not> int_isspace (hd (py_str i))" "\<not> int_isspace (last (py_str i))"
    using py_str_chars by blast+
  then have t: "rev (dropWhile int_isspace (rev (dropWhile int_isspace (py_str i)))) = py_str i"
    using py_str_nonempty by (intro trim_id)
  show ?thesis
  proof (cases "i < 0")
    case True
    then have "nat \<bar>i\<bar> = nat (- i)" by simp
    then show ?thesis unfolding py_int_def t using True
      by (simp add: py_str_def py_digits_nat_digits)
  next
    case False
    then have a: "nat \<bar>i\<bar> = nat i" by simp
    obtain c cs where cs: "nat_digits (nat i) = c # cs"
      using nat_digits_nonempty by (cases "nat_digits (nat i)") auto
    then obtain v where "digit_of c = Some v" using nat_digits_all [of c "nat i"] by auto
    then have "c \<noteq> CHR ''-''" "c \<noteq> CHR ''+''" using digit_of_props by blast+
    moreover have "py_digits (c # cs) =
        (if length (c # cs) > max_str_digits then None else Some (nat i))"
      using py_digits_nat_digits [of "nat i"] cs by simp
    ultimately show ?thesis unfolding py_int_def t a using False cs
      by (simp add: py_str_def)
  qed
qed

lemma py_int_py_str_small:
  assumes "\<bar>i\<bar> < 10 ^ max_str_digits"
  shows "py_int (py_str i) = Inr i"
proof -
  have "int (nat \<bar>i\<bar>) < int (10 ^ max_str_digits)" using assms by simp
  then have "nat \<bar>i\<bar> < 10 ^ max_str_digits" by (simp only: of_nat_less_iff)
  moreover have "0 < max_str_digits" by (simp add: max_str_digits_def)
  ultimately have "length (nat_digits (nat \<bar>i\<bar>)) \<le> max_str_digits"
    by (rule nat_digits_short)
  then show ?thesis by (simp add: py_int_py_str)
qed

lemma py_int_py_str_large:
  assumes "10 ^ max_str_digits \<le> \<bar>i\<bar>"
  shows "py_int (py_str i) = Inl ValueError"
proof -
  have "int (10 ^ max_str_digits) \<le> int (nat \<bar>i\<bar>)" using assms by simp
  then have "10 ^ max_str_digits \<le> nat \<bar>i\<bar>" by (simp only: of_nat_le_iff)
  then have "max_str_digits < length (nat_digits (nat \<bar>i\<bar>))" by (rule nat_digits_long)
  then show ?thesis by (simp add: py_int_py_str)
qed

lemma split_on_none: "c \<notin> set s \<Longrightarrow> split_on c s = [s]"
  by (induction s) auto

lemma split_on_first: "c \<notin> set a \<Longrightarrow> split_on c (a @ c # b) = a # split_on c b"
  by (induction a) auto

lemma strip_subset: "set (strip s) \<subseteq> set s"
proof
  fix x assume "x \<in> set (strip s)"
  then have "x \<in> set (dropWhile py_isspace (rev (dropWhile py_isspace s)))"
    by (simp add: strip_def)
  then have "x \<in> set (rev (dropWhile py_isspace s))" by (rule set_dropWhileD)
  then have "x \<in> set (dropWhile py_isspace s)" by simp
  then show "x \<in> set s" by (rule set_dropWhileD)
qed

lemma parse_two_parts:
  assumes "strip t = x @ ''/'' @ y" "CHR ''/'' \<notin> set x" "CHR ''/'' \<notin> set y"
    "py_int x = Inr a" "py_int y = Inr b"
  shows "parse_count_text t = Inr (a, b)"
proof -
  have "split_on CHR ''/'' (strip t) = [x, y]"
    using assms(1-3) by (simp add: split_on_first split_on_none)
  moreover have "CHR ''/'' \<in> set (strip t)" using assms(1) by simp
  ultimately show ?thesis using assms(4,5) by (simp add: parse_count_text_def)
qed

lemma strip_py_str: "strip (py_str a @ ''/'' @ py_str b) = py_str a @ ''/'' @ py_str b"
proof -
  let ?s = "py_str a @ ''/'' @ py_str b"
  have hd: "hd ?s = hd (py_str a)" using py_str_nonempty by (simp add: hd_append)
  have la: "last ?s = last (py_str b)" using py_str_nonempty by simp
  have "hd (py_str a) \<in> set (py_str a)" "last (py_str b) \<in> set (py_str b)"
    using py_str_nonempty by simp_all
  then have "\<not> py_isspace (hd ?s)" "\<not> py_isspace (last ?s)"
    unfolding hd la using py_str_chars by blast+
  moreover have "?s \<noteq> []" by simp
  ultimately show ?thesis unfolding strip_def by (intro trim_id)
qed

lemma parse_large:
  assumes "10 ^ max_str_digits \<le> \<bar>a\<bar> \<or> 10 ^ max_str_digits \<le> \<bar>b\<bar>"
  shows "parse_count_text (py_str a @ ''/'' @ py_str b) = Inl ValueError"
proof -
  have "CHR ''/'' \<notin> set (py_str a)" "CHR ''/'' \<notin> set (py_str b)"
    using py_str_chars by blast+
  then have sp: "split_on CHR ''/'' (py_str a @ ''/'' @ py_str b) = [py_str a, py_str b]"
    by (simp add: split_on_first split_on_none)
  have sl: "CHR ''/'' \<in> set (py_str a @ ''/'' @ py_str b)" by simp
  have e: "py_int (py_str a) = Inl ValueError \<or> py_int (py_str b) = Inl ValueError"
    using assms py_int_py_str_large by blast
  have v: "py_int (py_str a) = Inl ValueError \<or> (\<exists>k. py_int (py_str a) = Inr k)"
    by (simp add: py_int_py_str)
  have "parse_count_text (py_str a @ ''/'' @ py_str b) =
      (case py_int (py_str a) of
         Inl e \<Rightarrow> Inl e
       | Inr f \<Rightarrow> (case py_int (py_str b) of Inl e \<Rightarrow> Inl e | Inr t \<Rightarrow> Inr (f, t)))"
    unfolding parse_count_text_def Let_def strip_py_str sp using sl by (simp only: if_True list.case)
  then show ?thesis using e v by auto
qed

lemma find_scan_mcwk: "scan_mcwk fs = find mentions_content_domain fs"
  by (induction fs) (auto simp: mentions_content_domain_def)

lemma find_scan_course: "scan_course fs = find mentions_course_path fs"
  by (induction fs) (auto simp: mentions_course_path_def)

lemma after_first_Some: "after_first p s = Some r \<Longrightarrow> \<exists>pre. s = pre @ p @ r"
proof (induction s)
  case Nil
  then show ?case by (auto split: if_splits)
next
  case (Cons c cs)
  show ?case
  proof (cases "starts_with p (c # cs)")
    case True
    then obtain suf where suf: "c # cs = p @ suf" by (auto simp: starts_with_iff)
    have "r = drop (length p) (c # cs)" using True Cons.prems by simp
    then have "r = suf" unfolding suf by simp
    then have "c # cs = [] @ p @ r" using suf by simp
    then show ?thesis by blast
  next
    case False
    then have "after_first p cs = Some r" using Cons.prems by simp
    then obtain pre where "cs = pre @ p @ r" using Cons.IH by blast
    then have "c # cs = (c # pre) @ p @ r" by simp
    then show ?thesis by blast
  qed
qed

lemma url_host_infix:
  assumes "url_host u = h" and "h \<noteq> []"
  shows "str_in h u"
proof -
  from assms obtain r where r: "after_first ''://'' u = Some r"
    "h = takeWhile (\<lambda>c. c \<notin> set ''/?#'') r"
    by (auto simp: url_host_def split: option.splits)
  from after_first_Some [OF r(1)] obtain pre where "u = pre @ ''://'' @ r" by blast
  moreover have "r = h @ dropWhile (\<lambda>c. c \<notin> set ''/?#'') r"
    unfolding r(2) by simp
  ultimately have "u = (pre @ ''://'') @ h @ dropWhile (\<lambda>c. c \<notin> set ''/?#'') r"
    by simp
  then show ?thesis unfolding str_in_iff by blast
qed

lemma content_domain_is_mentioned:
  assumes "on_content_domain f" and "\<not> str_in ''javascript:'' (frame_url f)"
  shows "mentions_content_domain f"
proof -
  have h: "url_host (frame_url f) = ''mcwk.mycourse.cn''"
    using assms(1) by (simp add: on_content_domain_def)
  then have "str_in ''mcwk.mycourse.cn'' (frame_url f)" by (rule url_host_infix) simp
  moreover have "frame_url f \<noteq> []" using h by (auto simp: url_host_def)
  moreover have "frame_url f \<noteq> ''about:blank''"
  proof
    assume "frame_url f = ''about:blank''"
    then have "url_host (frame_url f) = []" by (simp add: url_host_def)
    then show False using h by simp
  qed
  ultimately show ?thesis
    using assms(2) by (simp add: mentions_content_domain_def placeholder_def)
qed

lemma find_scan_first_valid: "scan_first_valid u fs = find (not_main_page u) fs"
  by (induction fs) (auto simp: not_main_page_def placeholder_def)

lemma find_by_url:
  "map_option frame_url (find (\<lambda>f. P (frame_url f)) fs) = find P (map frame_url fs)"
  by (induction fs) auto

section \<open>Lemmas on runs\<close>

lemmas io_defs = ret_def raise_def bnd_def try_except_def perform_def call_unit_def
  call_elem_def call_elems_def call_text_def call_bool_def call_js_def sleep_def
  set_title_button_def increment_completed_count_def

lemmas page_defs = page_browser_def page_elem_def page_elems_def page_text_def
  page_unit_def page_js_def start_state_def



lemma traces_ret: "R [] \<Longrightarrow> traces (ret x) R"
  by (simp add: traces_def ret_def)

lemma traces_raise: "R [] \<Longrightarrow> traces (raise e) R"
  by (simp add: traces_def raise_def)

lemma traces_set_title_button: "R [] \<Longrightarrow> traces (set_title_button b) R"
  by (simp add: traces_def set_title_button_def)

lemma traces_perform: "(\<And>r. R [(c, r)]) \<Longrightarrow> traces (perform f wrap c) R"
  by (auto simp: traces_def perform_def split: prod.splits)

lemma traces_sleep: "R [(Sleep n, R_none)] \<Longrightarrow> traces (sleep B n) R"
  by (simp add: traces_def sleep_def)

lemma traces_bnd:
  assumes "traces m R" and "\<And>x. traces (f x) R" and "closed_under_append R"
  shows "traces (bnd m f) R"
  unfolding traces_def
proof
  fix s
  obtain r s1 where m: "m s = (r, s1)" by (cases "m s")
  from assms(1) obtain evs1 where 1: "trace s1 = trace s @ evs1"
    "R evs1" "completed_count s1 = completed_count s"
    unfolding traces_def using m by (metis snd_conv)
  show "\<exists>evs. trace (snd (bnd m f s)) = trace s @ evs \<and> R evs
      \<and> completed_count (snd (bnd m f s)) = completed_count s"
  proof (cases r)
    case (Inl e)
    then show ?thesis using m 1 by (auto simp: bnd_def)
  next
    case (Inr x)
    from assms(2) [of x] obtain evs2 where 2: "trace (snd (f x s1)) = trace s1 @ evs2"
      "R evs2" "completed_count (snd (f x s1)) = completed_count s1"
      unfolding traces_def by blast
    have "trace (snd (bnd m f s)) = trace s @ (evs1 @ evs2)"
      using m Inr 1 2 by (simp add: bnd_def)
    moreover have "R (evs1 @ evs2)" using 1 2 assms(3) by (simp add: closed_under_append_def)
    moreover have "completed_count (snd (bnd m f s)) = completed_count s"
      using m Inr 1 2 by (simp add: bnd_def)
    ultimately show ?thesis by blast
  qed
qed

lemma traces_try:
  assumes "traces m R" and "\<And>e. traces (h e) R" and "closed_under_append R"
  shows "traces (try_except m h) R"
  unfolding traces_def
proof
  fix s
  obtain r s1 where m: "m s = (r, s1)" by (cases "m s")
  from assms(1) obtain evs1 where 1: "trace s1 = trace s @ evs1"
    "R evs1" "completed_count s1 = completed_count s"
    unfolding traces_def using m by (metis snd_conv)
  show "\<exists>evs. trace (snd (try_except m h s)) = trace s @ evs \<and> R evs
      \<and> completed_count (snd (try_except m h s)) = completed_count s"
  proof (cases r)
    case (Inr x)
    then show ?thesis using m 1 by (auto simp: try_except_def)
  next
    case (Inl e)
    from assms(2) [of e] obtain evs2 where 2: "trace (snd (h e s1)) = trace s1 @ evs2"
      "R evs2" "completed_count (snd (h e s1)) = completed_count s1"
      unfolding traces_def by blast
    have "trace (snd (try_except m h s)) = trace s @ (evs1 @ evs2)"
      using m Inl 1 2 by (simp add: try_except_def)
    moreover have "R (evs1 @ evs2)" using 1 2 assms(3) by (simp add: closed_under_append_def)
    moreover have "completed_count (snd (try_except m h s)) = completed_count s"
      using m Inl 1 2 by (simp add: try_except_def)
    ultimately show ?thesis by blast
  qed
qed

lemma traces_if:
  "(c \<Longrightarrow> traces a R) \<Longrightarrow> (\<not> c \<Longrightarrow> traces b R) \<Longrightarrow> traces (if c then a else b) R"
  by simp

lemma traces_option:
  "traces a R \<Longrightarrow> (\<And>x. traces (b x) R) \<Longrightarrow>
   traces (case v of None \<Rightarrow> a | Some x \<Rightarrow> b x) R"
  by (cases v) simp_all

lemma traces_list:
  "traces a R \<Longrightarrow> (\<And>x xs. traces (b x xs) R) \<Longrightarrow>
   traces (case v of [] \<Rightarrow> a | x # xs \<Rightarrow> b x xs) R"
  by (cases v) simp_all

lemma traces_prod:
  "(\<And>x y. traces (b x y) R) \<Longrightarrow> traces (case v of (x, y) \<Rightarrow> b x y) R"
  by (cases v) simp

lemma traces_calls:
  "(\<And>r. R [(c, r)]) \<Longrightarrow> traces (call_unit B c) R"
  "(\<And>r. R [(c, r)]) \<Longrightarrow> traces (call_elem B c) R"
  "(\<And>r. R [(c, r)]) \<Longrightarrow> traces (call_elems B c) R"
  "(\<And>r. R [(c, r)]) \<Longrightarrow> traces (call_text B c) R"
  "(\<And>r. R [(c, r)]) \<Longrightarrow> traces (call_bool B c) R"
  "(\<And>r. R [(c, r)]) \<Longrightarrow> traces (call_js B c) R"
  by (simp_all add: call_unit_def call_elem_def call_elems_def call_text_def call_bool_def
      call_js_def traces_perform)

lemma traces_sleep_times:
  "closed_under_append R \<Longrightarrow> R [(Sleep n, R_none)] \<Longrightarrow> traces (sleep_times B k n) R"
  by (induction k) (auto intro: traces_ret traces_bnd traces_sleep simp: closed_under_append_def)

lemmas traces_intros = traces_ret traces_raise traces_set_title_button traces_calls
  traces_sleep traces_bnd traces_try traces_if traces_option traces_list traces_prod
  traces_sleep_times

lemma traces_run:
  "traces m R \<Longrightarrow> m s = (r, s') \<Longrightarrow>
   \<exists>evs. trace s' = trace s @ evs \<and> R evs \<and> completed_count s' = completed_count s"
  unfolding traces_def by (metis snd_conv)

lemma traces_find_unfinished:
  "closed_under_append R \<Longrightarrow>
   (\<And>e r. R [(Elem_get_attribute e ''class'', r)]) \<Longrightarrow>
   (\<And>e r. R [(Elem_query_selector e Sel_title, r)]) \<Longrightarrow>
   (\<And>e r. R [(Elem_text_content e, r)]) \<Longrightarrow>
   traces (find_unfinished B items idx) R"
proof (induction items arbitrary: idx)
  case Nil
  then show ?case by (simp add: traces_ret closed_under_append_def)
next
  case (Cons a items)
  have e: "R []" using Cons.prems(1) by (simp add: closed_under_append_def)
  show ?case
    unfolding find_unfinished.simps
    by (intro traces_intros Cons.prems Cons.IH e)
qed





lemmas parse_defs = parse_count_text_def strip_def py_isspace_def py_int_def int_isspace_def
  py_digits_def digit_count_def max_str_digits_def digit_of_def

lemmas head_defs = module_head_def fetch_module_def read_count_text_def parse_progress_def
  module_gate_def expand_module_def module_finished_def

lemma empty_module_iteration:
  "module_iteration (page_browser empty_module) 0 s =
     Some ((Loop_next, 0), s\<lparr>trace := trace s @
         [(Page_query_selector_all Sel_collapse_item, R_elems [0]),
          (Elem_query_selector 0 Sel_text, R_elem (Some 1)),
          (Elem_text_content 1, R_text (Some ''module'')),
          (Elem_query_selector 0 Sel_count, R_elem (Some 2)),
          (Elem_text_content 2, R_text (Some ''0/3'')),
          (Elem_query_selector 0 Sel_collapse_title, R_elem (Some 3)),
          (Elem_click 3 None False, R_none), (Sleep 2, R_none),
          (Elem_query_selector_all 0 Sel_img_texts_item, R_elems [])],
        title_button := Some 3\<rparr>)"
  by (simp add: module_iteration_def head_defs io_defs page_defs empty_module_def parse_defs)

lemma stuck_aux:
  assumes a: "module_loop B n i s = Some y"
  shows "\<not> (B = page_browser empty_module \<and> n = 1 \<and> i = 0)"
proof (rule module_loop.raw_induct
    [where P = "\<lambda>B n i s y. \<not> (B = page_browser empty_module \<and> n = 1 \<and> i = 0)", OF _ a])
  fix f and B :: "unit browser" and n i s y
  assume IH: "\<And>B n i s y. f B n i s = Some y \<Longrightarrow>
      \<not> (B = page_browser empty_module \<and> n = 1 \<and> i = 0)"
    and step: "(if i < n
        then Option.bind (module_iteration B i s)
          (\<lambda>((ctl, next_index), s').
             case ctl of Loop_break \<Rightarrow> Some s' | Loop_next \<Rightarrow> f B n next_index s')
        else Some s) = Some y"
  show "\<not> (B = page_browser empty_module \<and> n = 1 \<and> i = 0)"
  proof
    assume "B = page_browser empty_module \<and> n = 1 \<and> i = 0"
    with step obtain s' where "f (page_browser empty_module) 1 0 s' = Some y"
      by (simp add: empty_module_iteration)
    with IH show False by blast
  qed
qed

lemma split_on_two:
  "split_on c s = [x, y] \<Longrightarrow> s = x @ c # y \<and> c \<notin> set x \<and> c \<notin> set y"
proof (induction s arbitrary: x)
  case Nil
  then show ?case by simp
next
  case (Cons a s)
  show ?case
  proof (cases "a = c")
    case True
    then have "x = []" "split_on c s = [y]" using Cons.prems by auto
    moreover have "c \<notin> set s"
    proof
      assume "c \<in> set s"
      then obtain p q where "s = p @ c # q" "c \<notin> set p" by (meson split_list_first)
      then have "split_on c s = p # split_on c q" by (simp add: split_on_first)
      moreover have "split_on c q \<noteq> []" by (cases q) (auto split: list.splits)
      ultimately show False using \<open>split_on c s = [y]\<close> by simp
    qed
    ultimately show ?thesis using True by (simp add: split_on_none)
  next
    case False
    then obtain p ps where p: "split_on c s = p # ps" "x = a # p" "ps = [y]"
      using Cons.prems by (auto split: list.splits)
    then show ?thesis using Cons.IH [of p] False by auto
  qed
qed

lemma dropWhile_keeps: "x \<in> set s \<Longrightarrow> \<not> P x \<Longrightarrow> x \<in> set (dropWhile P s)"
  by (induction s) auto

lemma strip_keeps: "x \<in> set s \<Longrightarrow> \<not> py_isspace x \<Longrightarrow> x \<in> set (strip s)"
  unfolding strip_def using dropWhile_keeps [of x _ py_isspace] by (metis set_rev)

lemma py_int_error: "py_int s = Inl e \<Longrightarrow> e = ValueError"
  by (auto simp: py_int_def split: list.splits if_splits option.splits)

lemma parse_error: "parse_count_text s = Inl e \<Longrightarrow> e = ValueError"
  by (auto simp: parse_count_text_def Let_def split: list.splits if_splits sum.splits
      dest: py_int_error)

lemma malformed_raises:
  assumes "CHR ''/'' \<in> set t" and "\<not> two_integer_components t"
  shows "parse_count_text t = Inl ValueError"
proof -
  have sl: "CHR ''/'' \<in> set (strip t)"
    using assms(1) by (intro strip_keeps) (simp_all add: py_isspace_def)
  have "\<not> (\<exists>p. parse_count_text t = Inr p)"
  proof
    assume "\<exists>p. parse_count_text t = Inr p"
    then obtain p where p: "parse_count_text t = Inr p" by blast
    then obtain x y where xy: "split_on CHR ''/'' (strip t) = [x, y]"
      using sl by (auto simp: parse_count_text_def Let_def split: list.splits)
    then obtain a b where "py_int x = Inr a" "py_int y = Inr b"
      using p sl by (auto simp: parse_count_text_def Let_def split: sum.splits)
    moreover from split_on_two [OF xy]
    have "strip t = x @ ''/'' @ y" "CHR ''/'' \<notin> set x" "CHR ''/'' \<notin> set y" by simp_all
    ultimately show False using assms(2) unfolding two_integer_components_def by blast
  qed
  then obtain e where "parse_count_text t = Inl e" by (cases "parse_count_text t") auto
  then show ?thesis using parse_error by blast
qed

lemma two_integer_components_split:
  "two_integer_components t \<Longrightarrow>
   \<exists>x y a b. split_on CHR ''/'' (strip t) = [x, y] \<and> py_int x = Inr a \<and> py_int y = Inr b"
  unfolding two_integer_components_def
  by (auto simp: split_on_first split_on_none)

lemma odd_not_two: "\<not> two_integer_components ''1/2/3''"
proof
  assume "two_integer_components ''1/2/3''"
  from two_integer_components_split [OF this] show False
    by (simp add: strip_def py_isspace_def)
qed

lemma letters_not_two: "\<not> two_integer_components ''a/b''"
proof
  assume "two_integer_components ''a/b''"
  from two_integer_components_split [OF this] show False
    by (simp add: strip_def py_isspace_def py_int_def int_isspace_def py_digits_def digit_count_def max_str_digits_def digit_of_def)
qed

lemma neutralD:
  assumes "neutral R"
  shows "closed_under_append R" "R []" "\<And>c r. (\<And>f js. c \<noteq> Frame_evaluate f js) \<Longrightarrow> R [(c, r)]"
  using assms by (auto simp: neutral_def closed_under_append_def)

lemma traces_locate_iframe:
  assumes n: "neutral R"
  shows "traces (locate_iframe B) R"
  using neutralD(3) [OF n, of "Sleep 3" R_none]
  unfolding traces_def locate_iframe_def
  by (auto simp: io_defs split: option.splits)

lemma traces_click_course_item:
  assumes n: "neutral R"
  shows "traces (click_course_item B item) R"
  unfolding click_course_item_def
  by (intro traces_intros neutralD(1,2) [OF n] neutralD(3) [OF n]) simp_all

lemma traces_wait_for_page:
  assumes n: "neutral R"
  shows "traces (wait_for_page B) R"
  unfolding wait_for_page_def
  by (intro traces_intros neutralD(1,2) [OF n] neutralD(3) [OF n]) simp_all

lemma traces_wait_for_iframe:
  assumes n: "neutral R"
  shows "traces (wait_for_iframe B) R"
  unfolding wait_for_iframe_def
  by (intro traces_intros neutralD(1,2) [OF n] neutralD(3) [OF n]) simp_all

lemma traces_start_course:
  assumes n: "neutral R"
  shows "traces (start_course B f) R"
  unfolding start_course_def detect_video_course_def click_start_button_def
    start_method1_def start_method2_def start_method3_def start_method4_def
  by (intro traces_intros neutralD(1,2) [OF n] neutralD(3) [OF n]) simp_all

lemma traces_return_to_list:
  assumes n: "neutral R"
  shows "traces (return_to_list B i) R"
  unfolding return_to_list_def find_back_button_def reexpand_module_def
  by (intro traces_intros neutralD(1,2) [OF n] neutralD(3) [OF n]) simp_all

lemma traces_select_lesson:
  assumes n: "neutral R"
  shows "traces (select_lesson B i) R"
  unfolding select_lesson_def refetch_module_def
  by (intro traces_intros traces_find_unfinished neutralD(1,2) [OF n] neutralD(3) [OF n]) simp_all

lemma traces_lesson_steps:
  assumes "neutral R" and "\<And>f. traces (finish_course B f) R"
  shows "traces (lesson_steps B i item) R"
  unfolding lesson_steps_def complete_in_frame_def
  by (intro traces_intros traces_click_course_item traces_wait_for_page traces_locate_iframe
      traces_wait_for_iframe traces_start_course traces_return_to_list assms
      neutralD(1,2) [OF assms(1)] neutralD(3) [OF assms(1)]) simp_all

lemma neutral_finish_iff_found: "neutral finish_iff_found"
proof -
  have "finish_iff_found [(c, r)]" if "\<And>f js. c \<noteq> Frame_evaluate f js" for c r
    using that by (cases c; cases r) (simp_all add: finish_iff_found_def)
  then show ?thesis
    by (auto simp: neutral_def closed_under_append_def finish_iff_found_def)
qed

lemma traces_finish_iff_found: "traces (finish_course B f) finish_iff_found"
  unfolding traces_def finish_course_def
  by (auto simp: io_defs finish_iff_found_def split: prod.splits sum.splits)

lemma bnd_cases:
  assumes "bnd m f s = (r, s')"
  obtains e where "m s = (Inl e, s')" "r = Inl e"
  | x s1 where "m s = (Inr x, s1)" "f x s1 = (r, s')"
  using assms by (auto simp: bnd_def split: prod.splits sum.splits)


lemma sleep_times_numeral:
  "sleep_times B (numeral k) n = bnd (sleep B n) (\<lambda>_. sleep_times B (pred_numeral k) n)"
  by (simp add: numeral_eq_Suc)

lemmas lesson_defs = lesson_body_def select_lesson_def refetch_module_def process_lesson_def
  lesson_steps_def click_course_item_def wait_for_page_def locate_iframe_def
  wait_for_iframe_def complete_in_frame_def start_course_def detect_video_course_def
  click_start_button_def start_method1_def start_method2_def start_method3_def
  start_method4_def finish_course_def return_to_list_def find_back_button_def
  reexpand_module_def

lemma class_reads_Nil: "class_reads [] = []"
  by (simp add: class_reads_def List.map_filter_simps)

lemma class_reads_Cons:
  "class_reads (ev # evs) =
     (case class_read ev of None \<Rightarrow> class_reads evs | Some x \<Rightarrow> x # class_reads evs)"
  by (cases "class_read ev") (simp_all add: class_reads_def List.map_filter_simps)

lemma class_reads_append: "class_reads (evs @ evs') = class_reads evs @ class_reads evs'"
  by (simp add: class_reads_def List.map_filter_def)

lemmas class_reads_simps = class_reads_Nil class_reads_Cons class_reads_append

lemma title_block:
  assumes "bnd (call_elem B (Elem_query_selector a Sel_title)) (\<lambda>item_title_elem.
         bnd (case item_title_elem of
                Some t \<Rightarrow> bnd (call_text B (Elem_text_content t)) (\<lambda>_. ret ())
              | None \<Rightarrow> ret ()) (\<lambda>_.
           ret (Some (a, idx + 1)))) sa = (Inr (Some (item, p)), s1)"
  shows "item = a \<and> p = idx + 1 \<and> (\<exists>evs. trace s1 = trace sa @ evs \<and> class_reads evs = []
      \<and> list_all (\<lambda>ev. acts_on (fst ev) = None) evs)"
  using assms
  by (auto simp: io_defs class_reads_simps split: prod.splits sum.splits option.splits)

lemma find_unfinished_Some:
  "find_unfinished B items idx s = (Inr (Some (item, p)), s1) \<Longrightarrow>
   \<exists>k cs c evs1. k < length items \<and> item = items ! k \<and> p = idx + k + 1
     \<and> length cs = k \<and> list_all is_passed cs \<and> \<not> is_passed c
     \<and> trace s1 = trace s @ evs1
     \<and> class_reads evs1 = zip (take k items) cs @ [(item, c)]
     \<and> list_all (\<lambda>ev. acts_on (fst ev) = None) evs1"
proof (induction items arbitrary: idx s)
  case Nil
  then show ?case by (simp add: ret_def)
next
  case (Cons a items)
  let ?rest = "\<lambda>item_class.
       if \<not> is_passed item_class then
         bnd (call_elem B (Elem_query_selector a Sel_title)) (\<lambda>item_title_elem.
         bnd (case item_title_elem of
                Some t \<Rightarrow> bnd (call_text B (Elem_text_content t)) (\<lambda>_. ret ())
              | None \<Rightarrow> ret ()) (\<lambda>_.
           ret (Some (a, idx + 1))))
       else find_unfinished B items (idx + 1)"
  from Cons.prems have b: "bnd (call_text B (Elem_get_attribute a ''class'')) ?rest s =
      (Inr (Some (item, p)), s1)" by simp
  from b obtain c sa where g: "call_text B (Elem_get_attribute a ''class'') s = (Inr c, sa)"
    and rest: "?rest c sa = (Inr (Some (item, p)), s1)"
    by (cases rule: bnd_cases) auto
  from g have sa: "trace sa = trace s @ [(Elem_get_attribute a ''class'', R_text c)]"
    by (auto simp: call_text_def perform_def split: prod.splits sum.splits)
  show ?case
  proof (cases "is_passed c")
    case False
    with rest title_block [of B a idx sa item p s1] obtain evs where
      e: "item = a" "p = idx + 1" "trace s1 = trace sa @ evs" "class_reads evs = []"
        "list_all (\<lambda>ev. acts_on (fst ev) = None) evs" by auto
    let ?evs1 = "(Elem_get_attribute a ''class'', R_text c) # evs"
    have "0 < length (a # items)" "item = (a # items) ! 0" "p = idx + 0 + 1"
      "length ([] :: string option list) = 0" "list_all is_passed []" "\<not> is_passed c"
      "trace s1 = trace s @ ?evs1"
      "class_reads ?evs1 = zip (take 0 (a # items)) [] @ [(item, c)]"
      "list_all (\<lambda>ev. acts_on (fst ev) = None) ?evs1"
      using e sa False by (simp_all add: class_reads_simps)
    then show ?thesis by blast
  next
    case True
    with rest have "find_unfinished B items (idx + 1) sa = (Inr (Some (item, p)), s1)" by simp
    from Cons.IH [OF this] obtain k cs c' evs1 where
      i: "k < length items" "item = items ! k" "p = idx + 1 + k + 1"
        "length cs = k" "list_all is_passed cs" "\<not> is_passed c'"
        "trace s1 = trace sa @ evs1"
        "class_reads evs1 = zip (take k items) cs @ [(item, c')]"
        "list_all (\<lambda>ev. acts_on (fst ev) = None) evs1" by blast
    let ?evs1 = "(Elem_get_attribute a ''class'', R_text c) # evs1"
    have "Suc k < length (a # items)" "item = (a # items) ! Suc k" "p = idx + Suc k + 1"
      "length (c # cs) = Suc k" "list_all is_passed (c # cs)" "\<not> is_passed c'"
      "trace s1 = trace s @ ?evs1"
      "class_reads ?evs1 = zip (take (Suc k) (a # items)) (c # cs) @ [(item, c')]"
      "list_all (\<lambda>ev. acts_on (fst ev) = None) ?evs1"
      using i sa True by (simp_all add: class_reads_simps)
    then show ?thesis by blast
  qed
qed

lemma find_unfinished_None:
  "find_unfinished B items idx s = (Inr None, s1) \<Longrightarrow>
   \<exists>cs evs. length cs = length items \<and> list_all is_passed cs
     \<and> trace s1 = trace s @ evs
     \<and> class_reads evs = zip items cs
     \<and> list_all (\<lambda>ev. acts_on (fst ev) = None) evs"
proof (induction items arbitrary: idx s)
  case Nil
  then show ?case by (simp add: ret_def class_reads_simps)
next
  case (Cons a items)
  let ?rest = "\<lambda>item_class.
       if \<not> is_passed item_class then
         bnd (call_elem B (Elem_query_selector a Sel_title)) (\<lambda>item_title_elem.
         bnd (case item_title_elem of
                Some t \<Rightarrow> bnd (call_text B (Elem_text_content t)) (\<lambda>_. ret ())
              | None \<Rightarrow> ret ()) (\<lambda>_.
           ret (Some (a, idx + 1))))
       else find_unfinished B items (idx + 1)"
  from Cons.prems have b: "bnd (call_text B (Elem_get_attribute a ''class'')) ?rest s =
      (Inr None, s1)" by simp
  from b obtain c sa where g: "call_text B (Elem_get_attribute a ''class'') s = (Inr c, sa)"
    and rest: "?rest c sa = (Inr None, s1)"
    by (cases rule: bnd_cases) auto
  from g have sa: "trace sa = trace s @ [(Elem_get_attribute a ''class'', R_text c)]"
    by (auto simp: call_text_def perform_def split: prod.splits sum.splits)
  have p: "is_passed c"
  proof (rule ccontr)
    assume "\<not> is_passed c"
    with rest show False
      by (auto simp: io_defs split: prod.splits sum.splits option.splits)
  qed
  with rest have "find_unfinished B items (idx + 1) sa = (Inr None, s1)" by simp
  from Cons.IH [OF this] obtain cs evs where
    i: "length cs = length items" "list_all is_passed cs" "trace s1 = trace sa @ evs"
      "class_reads evs = zip items cs" "list_all (\<lambda>ev. acts_on (fst ev) = None) evs"
    by blast
  let ?evs = "(Elem_get_attribute a ''class'', R_text c) # evs"
  have "length (c # cs) = length (a # items)" "list_all is_passed (c # cs)"
    "trace s1 = trace s @ ?evs" "class_reads ?evs = zip (a # items) (c # cs)"
    "list_all (\<lambda>ev. acts_on (fst ev) = None) ?evs"
    using i sa p by (simp_all add: class_reads_simps)
  then show ?case by blast
qed


lemmas start_defs = click_start_button_def start_method1_def start_method2_def
  start_method3_def start_method4_def

lemma click_start_button_trace:
  "\<exists>clicked s' evs. click_start_button B f s = (Inr clicked, s') \<and> trace s' = trace s @ evs
     \<and> attempts evs \<in> set [[1], [1, 2], [1, 2, 3], [1, 2, 3, 4]]
     \<and> in_order 1 False evs \<and> stops_at_success evs
     \<and> clicked = list_ex (\<lambda>ev. is_click (fst ev) \<and> \<not> is_raised (snd ev)) evs
     \<and> (\<not> clicked \<longrightarrow> attempts evs = [1, 2, 3, 4])"
  by (auto simp: start_defs io_defs attempts_def List.map_filter_simps
      split: prod.splits sum.splits list.splits)

lemma start_course_returns:
  "\<exists>b s1. start_course B f s = (Inr b, s1) \<and> complete_in_frame B f s = finish_course B f s1"
proof -
  obtain d sd where d: "detect_video_course B f s = (Inr d, sd)"
    by (cases "detect_video_course B f s")
      (auto simp: detect_video_course_def io_defs split: prod.splits sum.splits)
  obtain b s1 where b: "start_course B f s = (Inr b, s1)"
  proof (cases d)
    case True
    then show ?thesis using d that by (simp add: start_course_def bnd_def ret_def)
  next
    case False
    from click_start_button_trace [of B f sd] obtain c s' where
      "click_start_button B f sd = (Inr c, s')" by blast
    then show ?thesis using d False that by (simp add: start_course_def bnd_def)
  qed
  then show ?thesis by (simp add: complete_in_frame_def bnd_def)
qed

lemma selected_lesson_goes_on:
  assumes "select_lesson B i s = (Inr (Some sel), s1)"
  shows "fst (lesson_iteration B i s) = Loop_next
    \<and> lesson_loop B i s = lesson_loop B i (snd (lesson_iteration B i s))"
proof -
  obtain item pos where sel: "sel = (item, pos)" by (cases sel)
  obtain q s2 where q: "process_lesson B i item s1 = (q, s2)"
    by (cases "process_lesson B i item s1")
  have "fst (lesson_body B i s) \<noteq> Inr Loop_break"
    using assms sel q by (cases q) (simp_all add: lesson_body_def bnd_def ret_def)
  then have 1: "fst (lesson_iteration B i s) = Loop_next"
  proof (cases "lesson_body B i s")
    case (Pair r b)
    assume n: "fst (lesson_body B i s) \<noteq> Inr Loop_break"
    show ?thesis
    proof (cases r)
      case (Inl e)
      then show ?thesis using Pair by (simp add: lesson_iteration_def)
    next
      case (Inr c)
      then show ?thesis using Pair n by (cases c) (simp_all add: lesson_iteration_def)
    qed
  qed
  then have "lesson_loop B i s = lesson_loop B i (snd (lesson_iteration B i s))"
    by (subst lesson_loop.simps) (cases "lesson_iteration B i s", simp)
  with 1 show ?thesis by simp
qed

lemma dead_click:
  "click_start_button (page_browser dead_lesson) content_frame start_state =
    (Inr False, start_state\<lparr>trace :=
       [(Frame_wait_for_selector content_frame Sel_btn_start_any 20000 (Some ''visible''),
         Raised TimeoutError),
        (Frame_wait_for_selector content_frame Sel_img_btn_start 10000 None,
         Raised TimeoutError),
        (Frame_click content_frame Sel_pri_start_btn None, Raised TimeoutError),
        (Frame_query_selector_all content_frame Sel_class_start, R_elems [])]\<rparr>)"
  by (simp add: start_defs io_defs page_defs dead_lesson_def)

lemma dead_select:
  "fst (select_lesson (page_browser dead_lesson) 0 start_state) = Inr (Some (10, 1))"
  by (simp add: select_lesson_def refetch_module_def io_defs page_defs dead_lesson_def
      is_passed_def is_expanded_def)


lemma video_run:
  "fst (lesson_body (page_browser video_lesson) 0 start_state) = Inr Loop_next
   \<and> list_ex poll_found (trace (snd (lesson_body (page_browser video_lesson) 0 start_state)))"
  by (simp add: lesson_defs io_defs page_defs video_lesson_def is_passed_def is_expanded_def
      find_iframe_def example_frames_def placeholder_def lower_def lower_char_def
      sleep_times_numeral)

lemma lesson_passes_loop:
  "lesson_passes B i n s = Some s' \<Longrightarrow> lesson_loop B i s = Some s'"
proof (induction n arbitrary: s)
  case 0
  then show ?case by simp
next
  case (Suc n)
  obtain ctl s1 where it: "lesson_iteration B i s = (ctl, s1)"
    by (cases "lesson_iteration B i s")
  show ?case
  proof (cases ctl)
    case Loop_break
    then show ?thesis using Suc.prems it by (subst lesson_loop.simps) simp
  next
    case Loop_next
    then have "lesson_passes B i n s1 = Some s'" using Suc.prems it by simp
    from Suc.IH [OF this] show ?thesis using it Loop_next by (subst lesson_loop.simps) simp
  qed
qed

lemma lesson_loop_passes:
  assumes a: "lesson_loop B i s = Some s'"
  shows "\<exists>n. lesson_passes B i n s = Some s'"
proof (rule lesson_loop.raw_induct
    [where P = "\<lambda>B i s s'. \<exists>n. lesson_passes B i n s = Some s'", OF _ a])
  fix f and B :: "'a browser" and i s s'
  assume IH: "\<And>B i s s'. f B i s = Some s' \<Longrightarrow> \<exists>n. lesson_passes B i n s = Some s'"
    and step: "(case lesson_iteration B i s of
        (Loop_break, s') \<Rightarrow> Some s' | (Loop_next, s') \<Rightarrow> f B i s') = Some s'"
  obtain ctl s1 where it: "lesson_iteration B i s = (ctl, s1)"
    by (cases "lesson_iteration B i s")
  show "\<exists>n. lesson_passes B i n s = Some s'"
  proof (cases ctl)
    case Loop_break
    then have "lesson_passes B i (Suc 0) s = Some s'" using step it by simp
    then show ?thesis by blast
  next
    case Loop_next
    then have "f B i s1 = Some s'" using step it by simp
    from IH [OF this] obtain n where "lesson_passes B i n s1 = Some s'" by blast
    then have "lesson_passes B i (Suc n) s = Some s'" using it Loop_next by simp
    then show ?thesis by blast
  qed
qed

lemma lesson_passes_next:
  "fst (lesson_iteration B i s) = Loop_next \<Longrightarrow>
     lesson_passes B i (Suc n) s = lesson_passes B i n (snd (lesson_iteration B i s))"
  by (cases "lesson_iteration B i s") simp

lemma lesson_passes_break:
  "fst (lesson_iteration B i s) = Loop_break \<Longrightarrow>
     lesson_passes B i (Suc n) s = Some (snd (lesson_iteration B i s))"
  by (cases "lesson_iteration B i s") simp

lemma lesson_loop_iff_passes:
  "(lesson_loop B i s = Some s') = (\<exists>n. lesson_passes B i n s = Some s')"
  using lesson_passes_loop lesson_loop_passes by blast

lemmas completing_defs = completing_browser_def marked_def page_elem_def page_elems_def
  page_text_def page_unit_def page_js_def

lemma completing_select_0:
  "world s = 0 \<Longrightarrow> fst (select_lesson completing_browser 0 s) = Inr (Some (10, 1))"
  by (simp add: select_lesson_def refetch_module_def io_defs completing_defs
      is_passed_def is_expanded_def)

lemma completing_select_1:
  "world s = 1 \<Longrightarrow> fst (select_lesson completing_browser 0 s) = Inr (Some (11, 2))"
  by (simp add: select_lesson_def refetch_module_def io_defs completing_defs
      is_passed_def is_expanded_def)

lemma completing_select_2:
  "world s = 2 \<Longrightarrow> fst (select_lesson completing_browser 0 s) = Inr None"
  by (simp add: select_lesson_def refetch_module_def io_defs completing_defs
      is_passed_def is_expanded_def)

lemma completing_pass_0:
  "world s = 0 \<Longrightarrow> fst (lesson_iteration completing_browser 0 s) = Loop_next
     \<and> world (snd (lesson_iteration completing_browser 0 s)) = 1
     \<and> completed_count (snd (lesson_iteration completing_browser 0 s)) = completed_count s + 1"
  by (simp add: lesson_iteration_def lesson_defs io_defs completing_defs is_passed_def
      is_expanded_def find_iframe_def example_frames_def placeholder_def lower_def
      lower_char_def sleep_times_numeral start_defs)


lemma completing_pass_1:
  "world s = 1 \<Longrightarrow> fst (lesson_iteration completing_browser 0 s) = Loop_next
     \<and> world (snd (lesson_iteration completing_browser 0 s)) = 2
     \<and> completed_count (snd (lesson_iteration completing_browser 0 s)) = completed_count s + 1"
  by (simp add: lesson_iteration_def lesson_defs io_defs completing_defs is_passed_def
      is_expanded_def find_iframe_def example_frames_def placeholder_def lower_def
      lower_char_def sleep_times_numeral start_defs)

lemma completing_pass_2:
  "world s = 2 \<Longrightarrow> fst (lesson_iteration completing_browser 0 s) = Loop_break
     \<and> world (snd (lesson_iteration completing_browser 0 s)) = 2
     \<and> completed_count (snd (lesson_iteration completing_browser 0 s)) = completed_count s"
  by (simp add: lesson_iteration_def lesson_body_def select_lesson_def refetch_module_def
      io_defs completing_defs is_passed_def is_expanded_def)

lemma completing_click:
  "fst (click_start_button completing_browser content_frame fresh_state) = Inr False
   \<and> attempts (trace (snd (click_start_button completing_browser content_frame fresh_state)))
       = [1, 2, 3, 4]"
  by (simp add: start_defs io_defs completing_defs fresh_state_def attempts_def
      List.map_filter_simps)

lemma select_lesson_first_unpassed:
  assumes "select_lesson B i t = (Inr (Some (item, p)), t3)"
  shows "\<exists>pre m items evs k cs c.
      trace t3 = pre @ (Elem_query_selector_all m Sel_img_texts_item, R_elems items) # evs
    \<and> k < length items \<and> item = items ! k \<and> p = k + 1
    \<and> length cs = k \<and> list_all is_passed cs \<and> \<not> is_passed c
    \<and> class_reads evs = zip (take k items) cs @ [(item, c)]"
proof -
  from assms obtain found s1 where
    1: "(case found of None \<Rightarrow> ret None
         | Some module \<Rightarrow>
             bnd (call_elems B (Elem_query_selector_all module Sel_img_texts_item))
               (\<lambda>course_items. find_unfinished B course_items 0)) s1
        = (Inr (Some (item, p)), t3)"
    unfolding select_lesson_def by (elim bnd_cases) simp_all
  then obtain m where m: "found = Some m" by (cases found) (simp_all add: ret_def)
  with 1 obtain items u where
    2: "call_elems B (Elem_query_selector_all m Sel_img_texts_item) s1 = (Inr items, u)"
    and 3: "find_unfinished B items 0 u = (Inr (Some (item, p)), t3)"
    by simp (elim bnd_cases, simp_all)
  from 2 have u: "trace u =
      trace s1 @ [(Elem_query_selector_all m Sel_img_texts_item, R_elems items)]"
    by (auto simp: call_elems_def perform_def split: prod.splits)
  from find_unfinished_Some [OF 3] obtain k cs c evs1 where
    4: "k < length items" "item = items ! k" "p = 0 + k + 1" "length cs = k"
      "list_all is_passed cs" "\<not> is_passed c" "trace t3 = trace u @ evs1"
      "class_reads evs1 = zip (take k items) cs @ [(item, c)]" by blast
  from 4(7) u have "trace t3 =
      trace s1 @ (Elem_query_selector_all m Sel_img_texts_item, R_elems items) # evs1"
    by simp
  with 4 show ?thesis by (intro exI [of _ "trace s1"] exI [of _ m] exI [of _ items]
        exI [of _ evs1] exI [of _ k] exI [of _ cs] exI [of _ c]) simp
qed

lemma break_after_pass:
  assumes "lesson_iteration B i t = (Loop_next, t2)"
    and "select_lesson B i t2 = (Inr None, t3)"
  shows "lesson_loop B i t = Some t3"
proof -
  have "lesson_iteration B i t2 = (Loop_break, t3)"
    using assms(2) by (simp add: lesson_iteration_def lesson_body_def bnd_def ret_def)
  then have "lesson_loop B i t2 = Some t3" by (subst lesson_loop.simps) simp
  then show ?thesis using assms(1) by (subst lesson_loop.simps) simp
qed

lemmas dead_defs = page_browser_def page_elem_def page_elems_def page_text_def page_unit_def
  page_js_def dead_lessons_def

lemma dead_lessons_select:
  "fst (select_lesson (page_browser dead_lessons) 0 s) = Inr (Some (10, 1))"
  by (simp add: select_lesson_def refetch_module_def io_defs dead_defs
      is_passed_def is_expanded_def)

lemma dead_lessons_click:
  "fst (click_start_button (page_browser dead_lessons) content_frame s) = Inr False
   \<and> attempts (drop (length (trace s))
        (trace (snd (click_start_button (page_browser dead_lessons) content_frame s))))
       = [1, 2, 3, 4]"
  by (simp add: start_defs io_defs dead_defs attempts_def List.map_filter_simps)

lemma dead_lessons_next:
  "fst (lesson_iteration (page_browser dead_lessons) 0 s) = Loop_next"
proof -
  have "select_lesson (page_browser dead_lessons) 0 s =
      (Inr (Some (10, 1)), snd (select_lesson (page_browser dead_lessons) 0 s))"
    using dead_lessons_select [of s]
    by (cases "select_lesson (page_browser dead_lessons) 0 s") simp
  from selected_lesson_goes_on [OF this] show ?thesis by simp
qed

lemma dead_lessons_passes: "lesson_passes (page_browser dead_lessons) 0 n s = None"
proof (induction n arbitrary: s)
  case 0
  then show ?case by simp
next
  case (Suc n)
  obtain ctl s1 where it: "lesson_iteration (page_browser dead_lessons) 0 s = (ctl, s1)"
    by (cases "lesson_iteration (page_browser dead_lessons) 0 s")
  with dead_lessons_next [of s] have "ctl = Loop_next" by simp
  then show ?case using it Suc.IH by simp
qed

section \<open>The claims\<close>

text \<open>
  C2, as the script has it. The script's test is Python's \<^verbatim>\<open>in\<close> on the whole attribute:
  a lesson counts as passed exactly when its class attribute contains the text
  \<^verbatim>\<open>passed\<close> somewhere; a \<^verbatim>\<open>passed\<close> token is enough for that, and not needed.
\<close>

theorem is_passed_substring:
  "is_passed item_class = (\<exists>c pre suf. item_class = Some c \<and> c = pre @ ''passed'' @ suf)
   \<and> (has_passed_token item_class \<longrightarrow> is_passed item_class)"
proof -
  have "is_passed item_class = (\<exists>c pre suf. item_class = Some c \<and> c = pre @ ''passed'' @ suf)"
    by (cases item_class) (auto simp: is_passed_def str_in_iff)
  then show ?thesis using passed_token_is_passed by blast
qed

theorem is_passed_substring_witness:
  "has_passed_token (Some ''img-texts-item passed'')
   \<and> is_passed (Some ''img-texts-item passed'')"
proof -
  have h: "has_passed_token (Some ''img-texts-item passed'')"
    by (simp add: has_passed_token_def class_tokens_def html_space_def)
  with is_passed_substring [of "Some ''img-texts-item passed''"] show ?thesis by blast
qed

text \<open>
  C2 as stated fails: the class \<^verbatim>\<open>img-texts-item unpassed\<close> has the tokens
  \<^verbatim>\<open>img-texts-item\<close> and \<^verbatim>\<open>unpassed\<close>, and the script takes the lesson for passed.
\<close>

theorem is_passed_token_counterexample:
  "is_passed (Some ''img-texts-item unpassed'')
   \<and> \<not> has_passed_token (Some ''img-texts-item unpassed'')"
  by (simp add: is_passed_def has_passed_token_def class_tokens_def html_space_def)

text \<open>
  C5, as the script has it. The frame chosen is the first frame that mentions the content
  domain if there is one, else the first frame that mentions a course path and not the
  outer page's domain, else the first frame that is not the main page, else none;
  placeholders never count. The tests are Python's \<^verbatim>\<open>in\<close> on the whole address: a frame
  on the content domain passes the first of them unless \<^verbatim>\<open>javascript:\<close> occurs in its
  address. The address of the frame chosen depends on the addresses of the frames and of
  the page only, and the three frames of the example resolve to the third, whatever the
  page's address.
\<close>

theorem find_iframe_ranked:
  "find_iframe page_url frames =
     (case find mentions_content_domain frames of
        Some f \<Rightarrow> Some f
      | None \<Rightarrow>
          (case find mentions_course_path frames of
             Some f \<Rightarrow> Some f
           | None \<Rightarrow> find (not_main_page page_url) frames))
   \<and> (on_content_domain g \<and> \<not> str_in ''javascript:'' (frame_url g) \<longrightarrow>
        mentions_content_domain g)
   \<and> (map frame_url frames = map frame_url frames' \<longrightarrow>
        map_option frame_url (find_iframe page_url frames) =
        map_option frame_url (find_iframe page_url frames'))
   \<and> find_iframe page_url example_frames = Some (example_frames ! 2)"
proof -
  have ranked: "find_iframe u fs =
     (case find mentions_content_domain fs of
        Some f \<Rightarrow> Some f
      | None \<Rightarrow>
          (case find mentions_course_path fs of
             Some f \<Rightarrow> Some f
           | None \<Rightarrow> find (not_main_page u) fs))" for u fs
    unfolding find_iframe_def find_scan_mcwk find_scan_course find_scan_first_valid
    by (rule refl)
  have by_url: "map_option frame_url (find_iframe u fs) =
     (case find (\<lambda>a. \<not> placeholder a \<and> str_in ''mcwk.mycourse.cn'' a) (map frame_url fs) of
        Some a \<Rightarrow> Some a
      | None \<Rightarrow>
          (case find (\<lambda>a. \<not> placeholder a \<and> \<not> str_in ''weiban.mycourse.cn'' a
                  \<and> str_in ''/course/'' (lower a)) (map frame_url fs) of
             Some a \<Rightarrow> Some a
           | None \<Rightarrow> find (\<lambda>a. \<not> placeholder a \<and> a \<noteq> u) (map frame_url fs)))" for u fs
  proof -
    have 1: "find (\<lambda>a. \<not> placeholder a \<and> str_in ''mcwk.mycourse.cn'' a) (map frame_url fs) =
        map_option frame_url (find mentions_content_domain fs)"
      unfolding mentions_content_domain_def by (rule find_by_url [symmetric])
    have 2: "find (\<lambda>a. \<not> placeholder a \<and> \<not> str_in ''weiban.mycourse.cn'' a
                  \<and> str_in ''/course/'' (lower a)) (map frame_url fs) =
        map_option frame_url (find mentions_course_path fs)"
      unfolding mentions_course_path_def by (rule find_by_url [symmetric])
    have 3: "find (\<lambda>a. \<not> placeholder a \<and> a \<noteq> u) (map frame_url fs) =
        map_option frame_url (find (not_main_page u) fs)"
      unfolding not_main_page_def by (rule find_by_url [symmetric])
    show ?thesis unfolding ranked 1 2 3 by (simp split: option.splits)
  qed
  have ex: "find_iframe page_url example_frames = Some (example_frames ! 2)"
    by (simp add: find_iframe_def example_frames_def placeholder_def lower_def lower_char_def)
  have det: "map_option frame_url (find_iframe page_url frames) =
      map_option frame_url (find_iframe page_url frames')"
    if "map frame_url frames = map frame_url frames'"
    by (simp only: by_url that)
  have dom: "mentions_content_domain g"
    if "on_content_domain g \<and> \<not> str_in ''javascript:'' (frame_url g)"
    using that content_domain_is_mentioned by blast
  show ?thesis by (intro conjI impI) (rule ranked, erule dom, erule det, rule ex)
qed

theorem find_iframe_ranked_witness:
  "map frame_url example_frames = map frame_url (map (frame_name_update (\<lambda>_. ''x'')) example_frames)
   \<and> map_option frame_url (find_iframe [] (map (frame_name_update (\<lambda>_. ''x'')) example_frames))
       = Some ''https://content.example/course/42''
   \<and> on_content_domain (advert_frames ! 1)
   \<and> \<not> str_in ''javascript:'' (frame_url (advert_frames ! 1))
   \<and> mentions_content_domain (advert_frames ! 1)"
proof -
  let ?renamed = "map (frame_name_update (\<lambda>_. ''x'')) example_frames"
  have h: "map frame_url example_frames = map frame_url ?renamed"
    by (simp add: example_frames_def)
  have d: "on_content_domain (advert_frames ! 1)"
    "\<not> str_in ''javascript:'' (frame_url (advert_frames ! 1))"
    by (simp_all add: advert_frames_def on_content_domain_def url_host_def)
  from find_iframe_ranked [of "[]" example_frames "advert_frames ! 1" ?renamed]
  have imp: "map frame_url example_frames = map frame_url ?renamed \<longrightarrow>
      map_option frame_url (find_iframe [] example_frames) =
      map_option frame_url (find_iframe [] ?renamed)"
    and third: "find_iframe [] example_frames = Some (example_frames ! 2)"
    and dom: "on_content_domain (advert_frames ! 1)
      \<and> \<not> str_in ''javascript:'' (frame_url (advert_frames ! 1)) \<longrightarrow>
      mentions_content_domain (advert_frames ! 1)"
    by blast+
  have "map_option frame_url (find_iframe [] ?renamed) =
      map_option frame_url (find_iframe [] example_frames)"
    using imp h by (simp only:)
  also have "\<dots> = map_option frame_url (Some (example_frames ! 2))"
    by (simp only: third)
  also have "\<dots> = Some ''https://content.example/course/42''"
    by (simp add: example_frames_def)
  finally show ?thesis using h d dom by (simp only: simp_thms)
qed

text \<open>
  C5 as stated fails: the script does not look at the domain or the path of an address.
  It prefers an advertisement whose query names the content domain to the frame that is
  on the content domain, and it does not see the course segment of a path that ends in
  \<^verbatim>\<open>/course\<close>.
\<close>

theorem content_domain_counterexample:
  "find_iframe ''https://weiban.mycourse.cn/#/course'' advert_frames = Some (advert_frames ! 0)
   \<and> \<not> on_content_domain (advert_frames ! 0) \<and> on_content_domain (advert_frames ! 1)
   \<and> resolve_as_claimed ''https://weiban.mycourse.cn/#/course'' advert_frames =
       Some (advert_frames ! 1)
   \<and> find_iframe ''https://weiban.mycourse.cn/#/course'' bare_course_frames =
       Some (bare_course_frames ! 0)
   \<and> \<not> has_course_segment (bare_course_frames ! 0) \<and> has_course_segment (bare_course_frames ! 1)
   \<and> resolve_as_claimed ''https://weiban.mycourse.cn/#/course'' bare_course_frames =
       Some (bare_course_frames ! 1)"
  by (simp add: find_iframe_def resolve_as_claimed_def advert_frames_def bare_course_frames_def
      placeholder_def excluded_as_claimed_def on_content_domain_def on_main_domain_def
      has_course_segment_def url_host_def url_path_def lower_def lower_char_def)

text \<open>
  C6, as the interpreter has it. The text of two integers of at most 4300 digits each with
  a slash between them parses to the two integers, and so does any text that, stripped,
  is two parts that \<^verbatim>\<open>int\<close> accepts around one slash; when one of the two integers has
  more than 4300 digits the parse raises \<^verbatim>\<open>ValueError\<close>. A text with no slash parses to
  \<open>(0, 0)\<close> and raises nothing.
\<close>

theorem parse_count_text_form:
  "(\<bar>a\<bar> < 10 ^ max_str_digits \<and> \<bar>b\<bar> < 10 ^ max_str_digits \<longrightarrow>
      parse_count_text (py_str a @ ''/'' @ py_str b) = Inr (a, b))
   \<and> (10 ^ max_str_digits \<le> \<bar>a\<bar> \<or> 10 ^ max_str_digits \<le> \<bar>b\<bar> \<longrightarrow>
      parse_count_text (py_str a @ ''/'' @ py_str b) = Inl ValueError)
   \<and> (strip t = x @ ''/'' @ y \<and> CHR ''/'' \<notin> set x \<and> CHR ''/'' \<notin> set y
        \<and> py_int x = Inr a' \<and> py_int y = Inr b' \<longrightarrow> parse_count_text t = Inr (a', b'))
   \<and> (CHR ''/'' \<notin> set u \<longrightarrow> parse_count_text u = Inr (0, 0))"
proof -
  have n: "CHR ''/'' \<notin> set (py_str a)" "CHR ''/'' \<notin> set (py_str b)"
    using py_str_chars by blast+
  have 1: "parse_count_text (py_str a @ ''/'' @ py_str b) = Inr (a, b)"
    if "\<bar>a\<bar> < 10 ^ max_str_digits" "\<bar>b\<bar> < 10 ^ max_str_digits"
    using parse_two_parts [OF strip_py_str n] that py_int_py_str_small by blast
  have 2: "parse_count_text u = Inr (0, 0)" if "CHR ''/'' \<notin> set u"
  proof -
    have "CHR ''/'' \<notin> set (strip u)" using that strip_subset by blast
    then show ?thesis by (simp add: parse_count_text_def)
  qed
  have 3: "parse_count_text (py_str a @ ''/'' @ py_str b) = Inl ValueError"
    if "10 ^ max_str_digits \<le> \<bar>a\<bar> \<or> 10 ^ max_str_digits \<le> \<bar>b\<bar>"
    using that by (rule parse_large)
  show ?thesis using 1 2 3 parse_two_parts by blast
qed

theorem parse_count_text_form_witness:
  "parse_count_text ''2/3'' = Inr (2, 3)
   \<and> parse_count_text (py_str (10 ^ max_str_digits) @ ''/'' @ ''3'') = Inl ValueError
   \<and> strip '' 12 / 30  '' = ''12 '' @ ''/'' @ '' 30'' \<and> parse_count_text '' 12 / 30  '' = Inr (12, 30)
   \<and> CHR ''/'' \<notin> set ''none'' \<and> parse_count_text ''none'' = Inr (0, 0)"
proof -
  have s: "strip '' 12 / 30  '' = ''12 '' @ ''/'' @ '' 30''"
    by (simp add: strip_def py_isspace_def)
  have x: "py_int ''12 '' = Inr 12" "py_int '' 30'' = Inr 30"
    by (simp_all add: py_int_def int_isspace_def py_digits_def digit_count_def
        max_str_digits_def digit_of_def)
  have p: "py_str 2 = ''2''" "py_str 3 = ''3''"
    by code_simp+
  have "(10::int) ^ 1 \<le> 10 ^ max_str_digits"
    by (rule power_increasing) (simp_all add: max_str_digits_def)
  then have b: "\<bar>2 :: int\<bar> < 10 ^ max_str_digits" "\<bar>3 :: int\<bar> < 10 ^ max_str_digits"
    by simp_all
  have c: "CHR ''/'' \<notin> set ''none''" "CHR ''/'' \<notin> set ''12 ''" "CHR ''/'' \<notin> set '' 30''"
    by simp_all
  from parse_count_text_form [of 2 3 "'' 12 / 30  ''" "''12 ''" "'' 30''" 12 30 "''none''"]
  have "parse_count_text (py_str 2 @ ''/'' @ py_str 3) = Inr (2, 3)"
    "parse_count_text '' 12 / 30  '' = Inr (12, 30)"
    "parse_count_text ''none'' = Inr (0, 0)"
    using s x b c by blast+
  then have 1: "parse_count_text ''2/3'' = Inr (2, 3)"
    "parse_count_text '' 12 / 30  '' = Inr (12, 30)"
    "parse_count_text ''none'' = Inr (0, 0)"
    by (simp_all add: p)
  have l: "(10::int) ^ max_str_digits \<le> \<bar>10 ^ max_str_digits\<bar>" by simp
  from parse_count_text_form [of "10 ^ max_str_digits" 3] l
  have "parse_count_text (py_str (10 ^ max_str_digits) @ ''/'' @ py_str 3) = Inl ValueError"
    by blast
  then have 2: "parse_count_text (py_str (10 ^ max_str_digits) @ ''/'' @ ''3'') = Inl ValueError"
    by (simp only: p)
  show ?thesis using 1 2 s c(1) by (simp only: simp_thms)
qed

text \<open>
  C6 as stated fails for an integer of 4301 digits: \<^verbatim>\<open>int\<close> raises \<^verbatim>\<open>ValueError\<close> on the
  first part of the text \<^verbatim>\<open>100...0/1\<close>.
\<close>

theorem long_integer_counterexample:
  "max_str_digits = 4300
   \<and> parse_count_text (py_str (10 ^ max_str_digits) @ ''/'' @ py_str 1) = Inl ValueError"
proof -
  have "(10::int) ^ max_str_digits \<le> \<bar>10 ^ max_str_digits\<bar> \<or> (10::int) ^ max_str_digits \<le> \<bar>1\<bar>"
    by simp
  from parse_large [OF this] show ?thesis by (simp only: max_str_digits_def simp_thms)
qed




text \<open>
  C4 fails on the script: on a page with one module whose progress reads \<^verbatim>\<open>0/3\<close> and
  whose lesson list is empty, every pass of the module loop ends at line 414 with the
  index unchanged, and the loop never ends.
\<close>

theorem module_loop_stuck: "module_loop (page_browser empty_module) 1 0 s = None"
proof (cases "module_loop (page_browser empty_module) 1 0 s")
  case None
  then show ?thesis .
next
  case (Some y)
  from stuck_aux [OF this] show ?thesis by simp
qed

text \<open>
  C10: a progress text with a slash that is not two integers around one slash makes the
  parse raise \<^verbatim>\<open>ValueError\<close>; when the module's progress text is such a text, the head of
  the module iteration raises right after reading it, no further call is made, and the
  handler of the module loop goes on to the next module.
\<close>

theorem malformed_progress_aborts_module:
  "CHR ''/'' \<in> set t \<and> \<not> two_integer_components t \<longrightarrow>
     parse_count_text t = Inl ValueError
     \<and> (fetch_module B i s = (Inr (Some m), s1) \<and> read_count_text B m s1 = (Inr (Some t), s2)
          \<longrightarrow> module_head B i s = (Inl ValueError, s2)
              \<and> module_iteration B i s = Some ((Loop_next, i + 1), s2))"
proof (intro impI conjI)
  assume a: "CHR ''/'' \<in> set t \<and> \<not> two_integer_components t"
  then show p: "parse_count_text t = Inl ValueError" using malformed_raises by blast
  assume b: "fetch_module B i s = (Inr (Some m), s1) \<and> read_count_text B m s1 = (Inr (Some t), s2)"
  then show h: "module_head B i s = (Inl ValueError, s2)"
    using p by (simp add: module_head_def bnd_def parse_progress_def raise_def)
  then show "module_iteration B i s = Some ((Loop_next, i + 1), s2)"
    by (simp add: module_iteration_def)
qed

theorem malformed_progress_aborts_module_witness:
  "CHR ''/'' \<in> set ''1/2/3'' \<and> \<not> two_integer_components ''1/2/3''
   \<and> parse_count_text ''1/2/3'' = Inl ValueError
   \<and> fetch_module (page_browser odd_module) 0 start_state =
       (Inr (Some 0), snd (fetch_module (page_browser odd_module) 0 start_state))
   \<and> read_count_text (page_browser odd_module) 0
         (snd (fetch_module (page_browser odd_module) 0 start_state)) =
       (Inr (Some ''1/2/3''), snd (module_head (page_browser odd_module) 0 start_state))
   \<and> module_iteration (page_browser odd_module) 0 start_state =
       Some ((Loop_next, 1), snd (module_head (page_browser odd_module) 0 start_state))
   \<and> \<not> two_integer_components ''a/b'' \<and> parse_count_text ''a/b'' = Inl ValueError"
proof -
  let ?P = "page_browser odd_module"
  let ?s1 = "snd (fetch_module ?P 0 start_state)"
  let ?s2 = "snd (read_count_text ?P 0 ?s1)"
  have f: "fetch_module ?P 0 start_state = (Inr (Some 0), ?s1)"
    by (simp add: fetch_module_def io_defs page_defs)
  have r: "read_count_text ?P 0 ?s1 = (Inr (Some ''1/2/3''), ?s2)"
    by (simp add: fetch_module_def read_count_text_def io_defs page_defs odd_module_def)
  have c: "CHR ''/'' \<in> set ''1/2/3''" "CHR ''/'' \<in> set ''a/b''" by simp_all
  from malformed_progress_aborts_module [of "''1/2/3''" ?P 0 start_state 0 ?s1 ?s2]
    c(1) odd_not_two f r
  have 1: "parse_count_text ''1/2/3'' = Inl ValueError"
    "module_head ?P 0 start_state = (Inl ValueError, ?s2)"
    "module_iteration ?P 0 start_state = Some ((Loop_next, 0 + 1), ?s2)"
    by blast+
  from malformed_progress_aborts_module [of "''a/b''" ?P 0 start_state 0 ?s1 ?s2]
    c(2) letters_not_two
  have 2: "parse_count_text ''a/b'' = Inl ValueError" by blast
  have s2: "snd (module_head ?P 0 start_state) = ?s2" using 1(2) by simp
  show ?thesis using 1 2 f r c odd_not_two letters_not_two unfolding s2 by simp
qed

text \<open>
  C3, as the script has it. In every pass of the lesson loop the completion function is
  called exactly if one of the polls found it, and \<^verbatim>\<open>completed_count\<close> goes up by one
  exactly if the pass reached its last statement, that is, if no exception reached the
  handler of line 831; the pass then goes on with the loop, and it leaves the loop only
  by a \<^verbatim>\<open>break\<close>. The count does not depend on the polls.
\<close>

theorem lesson_count_and_completion:
  assumes "lesson_body B i s = (r, s')"
  shows "\<exists>evs. trace s' = trace s @ evs
     \<and> completed_count s' = completed_count s + (if r = Inr Loop_next then 1 else 0)
     \<and> list_ex (is_finish_call \<circ> fst) evs = list_ex poll_found evs
     \<and> fst (lesson_iteration B i s) = (if r = Inr Loop_break then Loop_break else Loop_next)"
proof -
  note sel = traces_run [OF traces_select_lesson [OF neutral_finish_iff_found]]
  note steps = traces_run [OF traces_lesson_steps [OF neutral_finish_iff_found traces_finish_iff_found]]
  have it: "fst (lesson_iteration B i s) = (if r = Inr Loop_break then Loop_break else Loop_next)"
  proof (cases r)
    case (Inl e)
    then show ?thesis using assms by (simp add: lesson_iteration_def)
  next
    case (Inr b)
    then show ?thesis using assms by (cases b) (simp_all add: lesson_iteration_def)
  qed
  from assms have b: "bnd (select_lesson B i) (\<lambda>selected.
       case selected of
         None \<Rightarrow> ret Loop_break
       | Some (item, item_position) \<Rightarrow>
           bnd (process_lesson B i item) (\<lambda>_. ret Loop_next)) s = (r, s')"
    by (simp add: lesson_body_def)
  from b show ?thesis
  proof (cases rule: bnd_cases)
    case (1 e)
    from sel [OF 1(1)] show ?thesis using 1(2) it by (auto simp: finish_iff_found_def)
  next
    case (2 x s1)
    from sel [OF 2(1)] obtain evs1 where 1: "trace s1 = trace s @ evs1"
      "finish_iff_found evs1" "completed_count s1 = completed_count s" by blast
    show ?thesis
    proof (cases x)
      case None
      then have "r = Inr Loop_break" "s' = s1" using 2(2) by (simp_all add: ret_def)
      then show ?thesis using 1 it by (auto simp: finish_iff_found_def)
    next
      case (Some p)
      obtain item pos where p: "p = (item, pos)" by (cases p)
      then have c: "bnd (bnd (lesson_steps B i item) (\<lambda>_. increment_completed_count))
          (\<lambda>_. ret Loop_next) s1 = (r, s')"
        using 2(2) Some by (simp add: process_lesson_def)
      obtain q s2 where q: "lesson_steps B i item s1 = (q, s2)"
        by (cases "lesson_steps B i item s1")
      from steps [OF q] obtain evs2 where 3: "trace s2 = trace s1 @ evs2"
        "finish_iff_found evs2" "completed_count s2 = completed_count s1" by blast
      have f: "finish_iff_found (evs1 @ evs2)"
        using 1(2) 3(2) by (auto simp: finish_iff_found_def)
      show ?thesis
      proof (cases q)
        case (Inl e)
        then have "r = Inl e" "s' = s2" using c q by (simp_all add: bnd_def)
        then show ?thesis using 1 3 f it by (auto simp: finish_iff_found_def)
      next
        case (Inr u)
        then have "r = Inr Loop_next" "s' = s2\<lparr>completed_count := completed_count s2 + 1\<rparr>"
          using c q by (simp_all add: bnd_def increment_completed_count_def ret_def)
        then show ?thesis using 1 3 f it by (auto simp: finish_iff_found_def)
      qed
    qed
  qed
qed

theorem lesson_count_and_completion_witness:
  "lesson_body (page_browser video_lesson) 0 start_state =
     (Inr Loop_next, snd (lesson_body (page_browser video_lesson) 0 start_state))
   \<and> completed_count (snd (lesson_body (page_browser video_lesson) 0 start_state)) = 1
   \<and> list_ex (is_finish_call \<circ> fst)
        (trace (snd (lesson_body (page_browser video_lesson) 0 start_state)))"
proof -
  let ?P = "page_browser video_lesson"
  let ?s' = "snd (lesson_body ?P 0 start_state)"
  have h: "lesson_body ?P 0 start_state = (Inr Loop_next, ?s')"
    using video_run by (cases "lesson_body ?P 0 start_state") simp
  from lesson_count_and_completion [OF h] obtain evs where
    1: "trace ?s' = trace start_state @ evs"
      "completed_count ?s' = completed_count start_state + (if Inr Loop_next = (Inr Loop_next :: exn + loop_ctl) then 1 else 0)"
      "list_ex (is_finish_call \<circ> fst) evs = list_ex poll_found evs"
    by blast
  have "evs = trace ?s'" using 1(1) by (simp add: start_state_def)
  then have "list_ex (is_finish_call \<circ> fst) (trace ?s')" using 1(3) video_run by simp
  moreover have "completed_count ?s' = 1" using 1(2) by (simp add: start_state_def)
  ultimately show ?thesis using h by simp
qed

text \<open>
  C3 as stated fails: on a lesson where \<^verbatim>\<open>finishWxCourse\<close> never becomes a function, the
  pass ends normally and the lesson is counted, though the function was never called.
\<close>

theorem count_without_completion_counterexample:
  "fst (lesson_body (page_browser dead_lesson) 0 start_state) = Inr Loop_next
   \<and> completed_count (snd (lesson_body (page_browser dead_lesson) 0 start_state)) = 1
   \<and> \<not> list_ex (is_finish_call \<circ> fst)
         (trace (snd (lesson_body (page_browser dead_lesson) 0 start_state)))"
  by (simp add: lesson_defs io_defs page_defs dead_lesson_def is_passed_def is_expanded_def
      find_iframe_def example_frames_def placeholder_def lower_def lower_char_def
      sleep_times_numeral)





text \<open>
  C9, as the script has it. Pressing the start button never raises. Its calls are those
  of strategy 1, then 2, then 3, then 4, a strategy beginning only after a call of the one
  before raised; no strategy call follows a click that went through; the result says
  whether a click went through, and if none did all four were tried. Whatever the result,
  the lesson goes on to the polls, and a pass that chose a lesson always goes round the
  lesson loop again. The pass after it lists the lessons afresh: if none is left unpassed
  the loop ends there, and otherwise it works on the first lesson of that listing whose
  class is then read without the marker, all lessons listed before it being read as
  passed. The loop returns exactly the state in which some number of passes leaves it.
\<close>

theorem start_button_strategies:
  "(\<exists>clicked s' evs. click_start_button B f s = (Inr clicked, s') \<and> trace s' = trace s @ evs
     \<and> attempts evs \<in> set [[1], [1, 2], [1, 2, 3], [1, 2, 3, 4]]
     \<and> in_order 1 False evs \<and> stops_at_success evs
     \<and> clicked = list_ex (\<lambda>ev. is_click (fst ev) \<and> \<not> is_raised (snd ev)) evs
     \<and> (\<not> clicked \<longrightarrow> attempts evs = [1, 2, 3, 4]))
   \<and> (\<exists>b s1. start_course B f s = (Inr b, s1)
         \<and> complete_in_frame B f s = finish_course B f s1)
   \<and> (select_lesson B i t = (Inr (Some sel), t1) \<longrightarrow>
         fst (lesson_iteration B i t) = Loop_next
         \<and> lesson_loop B i t = lesson_loop B i (snd (lesson_iteration B i t)))
   \<and> (lesson_iteration B i t = (Loop_next, t2) \<and> select_lesson B i t2 = (Inr None, t3) \<longrightarrow>
         lesson_loop B i t = Some t3)
   \<and> (lesson_iteration B i t = (Loop_next, t2)
        \<and> select_lesson B i t2 = (Inr (Some (item, p)), t3) \<longrightarrow>
         (\<exists>pre m items evs k cs c.
             trace t3 = pre @ (Elem_query_selector_all m Sel_img_texts_item, R_elems items) # evs
           \<and> k < length items \<and> item = items ! k \<and> p = k + 1
           \<and> length cs = k \<and> list_all is_passed cs \<and> \<not> is_passed c
           \<and> class_reads evs = zip (take k items) cs @ [(item, c)]))
   \<and> ((lesson_loop B i t = Some t') = (\<exists>n. lesson_passes B i n t = Some t'))"
  using click_start_button_trace [of B f s] start_course_returns [of B f s]
    selected_lesson_goes_on [of B i t sel t1] break_after_pass [of B i t t2 t3]
    select_lesson_first_unpassed [of B i t2 item p t3] lesson_loop_iff_passes [of B i t t']
  by blast

theorem start_button_strategies_witness:
  "fst (click_start_button completing_browser content_frame fresh_state) = Inr False
   \<and> attempts (trace (snd (click_start_button completing_browser content_frame fresh_state)))
       = [1, 2, 3, 4]
   \<and> fst (select_lesson completing_browser 0 fresh_state) = Inr (Some (10, 1))
   \<and> fst (lesson_iteration completing_browser 0 fresh_state) = Loop_next
   \<and> fst (select_lesson completing_browser 0
            (snd (lesson_iteration completing_browser 0 fresh_state))) = Inr (Some (11, 2))
   \<and> (\<exists>pre m items evs c.
         trace (snd (select_lesson completing_browser 0
            (snd (lesson_iteration completing_browser 0 fresh_state)))) =
           pre @ (Elem_query_selector_all m Sel_img_texts_item, R_elems items) # evs
         \<and> 11 = items ! 1 \<and> \<not> is_passed c
         \<and> (\<exists>c0. is_passed c0 \<and> class_reads evs = [(items ! 0, c0), (11, c)]))
   \<and> fst (select_lesson completing_browser 0
            (snd (lesson_iteration completing_browser 0
              (snd (lesson_iteration completing_browser 0 fresh_state))))) = Inr None
   \<and> lesson_loop completing_browser 0
         (snd (lesson_iteration completing_browser 0 fresh_state)) =
       Some (snd (select_lesson completing_browser 0
            (snd (lesson_iteration completing_browser 0
              (snd (lesson_iteration completing_browser 0 fresh_state))))))
   \<and> (\<exists>t'. lesson_loop completing_browser 0 fresh_state = Some t'
          \<and> world t' = 2 \<and> completed_count t' = 2)"
proof -
  let ?B = "completing_browser"
  let ?p1 = "snd (lesson_iteration ?B 0 fresh_state)"
  let ?p2 = "snd (lesson_iteration ?B 0 ?p1)"
  let ?p3 = "snd (lesson_iteration ?B 0 ?p2)"
  let ?t1 = "snd (select_lesson ?B 0 fresh_state)"
  let ?t3 = "snd (select_lesson ?B 0 ?p1)"
  let ?u3 = "snd (select_lesson ?B 0 ?p2)"
  have w0: "world fresh_state = 0" and c0: "completed_count fresh_state = 0"
    and tr0: "trace fresh_state = []"
    by (simp_all add: fresh_state_def)
  note P1 = completing_pass_0 [OF w0]
  from P1 have w1: "world ?p1 = 1" by simp
  note P2 = completing_pass_1 [OF w1]
  from P2 have w2: "world ?p2 = 2" by simp
  note P3 = completing_pass_2 [OF w2]
  have it1: "lesson_iteration ?B 0 fresh_state = (Loop_next, ?p1)"
    using P1 by (cases "lesson_iteration ?B 0 fresh_state") simp
  have it2: "lesson_iteration ?B 0 ?p1 = (Loop_next, ?p2)"
    using P2 by (cases "lesson_iteration ?B 0 ?p1") simp
  have it3: "lesson_iteration ?B 0 ?p2 = (Loop_break, ?p3)"
    using P3 by (cases "lesson_iteration ?B 0 ?p2") simp
  have s0: "select_lesson ?B 0 fresh_state = (Inr (Some (10, 1)), ?t1)"
    using completing_select_0 [OF w0] by (cases "select_lesson ?B 0 fresh_state") simp
  have s1: "select_lesson ?B 0 ?p1 = (Inr (Some (11, 2)), ?t3)"
    using completing_select_1 [OF w1] by (cases "select_lesson ?B 0 ?p1") simp
  have s2: "select_lesson ?B 0 ?p2 = (Inr None, ?u3)"
    using completing_select_2 [OF w2] by (cases "select_lesson ?B 0 ?p2") simp
  have passes: "lesson_passes ?B 0 3 fresh_state = Some ?p3"
    using P1 P2 P3
    by (simp add: numeral_3_eq_3 lesson_passes_next lesson_passes_break
        del: lesson_passes.simps)
  note A = start_button_strategies [where B = ?B and f = content_frame and s = fresh_state
      and i = 0 and t = fresh_state and sel = "(10, 1)" and ?t1.0 = ?t1 and ?t2.0 = ?p1
      and item = 11 and p = 2 and ?t3.0 = ?t3 and t' = ?p3]
  note B = start_button_strategies [where B = ?B and f = content_frame and s = fresh_state
      and i = 0 and t = ?p1 and sel = "(11, 2)" and ?t1.0 = ?t3 and ?t2.0 = ?p2
      and item = 11 and p = 2 and ?t3.0 = ?u3 and t' = ?p3]
  from A obtain clicked s' evs0 where
    a1: "click_start_button ?B content_frame fresh_state = (Inr clicked, s')"
      "trace s' = trace fresh_state @ evs0" "\<not> clicked \<longrightarrow> attempts evs0 = [1, 2, 3, 4]"
    by blast
  from a1(1) completing_click have "\<not> clicked" by simp
  with a1 tr0 have click: "fst (click_start_button ?B content_frame fresh_state) = Inr False"
    "attempts (trace (snd (click_start_button ?B content_frame fresh_state))) = [1, 2, 3, 4]"
    by simp_all
  from A s0 have next1: "fst (lesson_iteration ?B 0 fresh_state) = Loop_next" by blast
  from A it1 s1 obtain pre m items evs k cs c where
    d: "trace ?t3 = pre @ (Elem_query_selector_all m Sel_img_texts_item, R_elems items) # evs"
      "k < length items" "(11 :: nat) = items ! k" "(2 :: nat) = k + 1" "length cs = k"
      "list_all is_passed cs" "\<not> is_passed c"
      "class_reads evs = zip (take k items) cs @ [(11, c)]"
    by blast
  from d(4) have k: "k = 1" by simp
  with d(5) obtain c0 where cs: "cs = [c0]" by (cases cs) auto
  from d(2) k obtain x y rest where items: "items = x # y # rest"
    by (cases items; cases "tl items") auto
  have reads: "class_reads evs = [(items ! 0, c0), (11, c)]"
    using d(8) unfolding k cs items by simp
  from d(6) cs have "is_passed c0" by simp
  with d(1,3,7) k reads have desc: "\<exists>pre m items evs c.
         trace ?t3 = pre @ (Elem_query_selector_all m Sel_img_texts_item, R_elems items) # evs
         \<and> 11 = items ! 1 \<and> \<not> is_passed c
         \<and> (\<exists>c0. is_passed c0 \<and> class_reads evs = [(items ! 0, c0), (11, c)])"
    by blast
  from B it2 s2 have second: "lesson_loop ?B 0 ?p1 = Some ?u3" by blast
  from A passes have "lesson_loop ?B 0 fresh_state = Some ?p3" by blast
  moreover have "world ?p3 = 2" "completed_count ?p3 = 2"
    using P1 P2 P3 c0 by simp_all
  ultimately have fin: "\<exists>t'. lesson_loop ?B 0 fresh_state = Some t'
          \<and> world t' = 2 \<and> completed_count t' = 2" by blast
  show ?thesis
    using click completing_select_0 [OF w0] next1 completing_select_1 [OF w1] desc
      completing_select_2 [OF w2] second fin
    by simp
qed

text \<open>
  C9 as stated fails: on a page with two lessons whose markers never change and on which
  all four strategies fail, every pass chooses the first lesson again from whatever state
  it starts, no number of passes leaves the loop, and the loop never returns; the second
  lesson is never reached.
\<close>

theorem same_lesson_again_counterexample:
  "fst (click_start_button (page_browser dead_lessons) content_frame start_state) = Inr False
   \<and> attempts (trace (snd (click_start_button (page_browser dead_lessons) content_frame
        start_state))) = [1, 2, 3, 4]
   \<and> (\<forall>s. fst (select_lesson (page_browser dead_lessons) 0 s) = Inr (Some (10, 1)))
   \<and> (\<forall>s. fst (lesson_iteration (page_browser dead_lessons) 0 s) = Loop_next)
   \<and> (\<forall>n. lesson_passes (page_browser dead_lessons) 0 n start_state = None)
   \<and> lesson_loop (page_browser dead_lessons) 0 start_state = None"
proof -
  have "lesson_loop (page_browser dead_lessons) 0 start_state = None"
  proof (cases "lesson_loop (page_browser dead_lessons) 0 start_state")
    case None
    then show ?thesis .
  next
    case (Some y)
    from lesson_loop_passes [OF this] show ?thesis by (simp add: dead_lessons_passes)
  qed
  moreover have "trace start_state = []" by (simp add: start_state_def)
  ultimately show ?thesis
    using dead_lessons_click [of start_state] dead_lessons_select dead_lessons_next
      dead_lessons_passes
    by simp
qed

end
